theory Spec2Isabelle
  imports Main
begin

section \<open>Data model of finite_state_machine.py\<close>

text \<open>
  Python exceptions that the modelled code can raise.  \<open>ValueError_not_in_list\<close> is the
  \<open>ValueError\<close> of \<open>list.index\<close> (its message is interpreter specific and is not
  modelled); \<open>ValueError msg\<close> is a \<open>ValueError\<close> raised with the message \<open>msg\<close>.
\<close>

datatype error = IndexError | TypeError | ValueError_not_in_list | ValueError string

text \<open>The dataclass \<open>Transition\<close>; an action of \<open>None\<close> is an epsilon transition.\<close>

record Transition =
  from_state :: int
  to_state :: int
  action :: "string option"

text \<open>The dataclass \<open>State\<close>.\<close>

record State =
  name :: string
  incoming :: "Transition list"
  outgoing :: "Transition list"

text \<open>
  Listeners are objects with three callbacks.  A listener is identified by a number.  What
  the machine does to its listeners is recorded as the sequence of callback invocations:
  which listener, which callback with which argument, and the value of \<open>current_state\<close>
  at the moment of the invocation.
\<close>

type_synonym listener = nat

datatype callback = onStateEntered int | onStateExited int | onTransition Transition

type_synonym invocation = "listener \<times> callback \<times> int"

text \<open>The attributes of the class \<open>FiniteStateMachine\<close>.\<close>

record FiniteStateMachine =
  states :: "State list"
  transitions :: "Transition list"
  current_state :: int
  listeners :: "listener list"

text \<open>
  The code of the listeners is not part of the machine.  \<open>handlers\<close> gives, for a listener,
  a callback with its argument and the machine at the moment of the call, what the call
  does: it returns (\<open>None\<close>) or raises an exception (\<open>Some e\<close>).  Callbacks that call back
  into the machine to change it are not modelled.
\<close>

type_synonym handlers = "listener \<Rightarrow> callback \<Rightarrow> FiniteStateMachine \<Rightarrow> error option"

subsection \<open>Python list primitives\<close>

text \<open>
  \<open>xs[i]\<close>: an index from \<open>-len(xs)\<close> up to \<open>len(xs) - 1\<close> is accepted, a negative one
  counts from the end, anything else raises \<open>IndexError\<close>.
\<close>

definition py_norm :: "nat \<Rightarrow> int \<Rightarrow> nat option" where
  "py_norm n i =
     (if 0 \<le> i \<and> i < int n then Some (nat i)
      else if - int n \<le> i \<and> i < 0 then Some (nat (i + int n))
      else None)"

definition py_get :: "'a list \<Rightarrow> int \<Rightarrow> error + 'a" where
  "py_get xs i = (case py_norm (length xs) i of None \<Rightarrow> Inl IndexError | Some k \<Rightarrow> Inr (xs ! k))"

text \<open>\<open>xs[i] = v\<close>, with the same index rule.\<close>

definition py_set :: "'a list \<Rightarrow> int \<Rightarrow> 'a \<Rightarrow> error + 'a list" where
  "py_set xs i v = (case py_norm (length xs) i of None \<Rightarrow> Inl IndexError | Some k \<Rightarrow> Inr (xs[k := v]))"

text \<open>\<open>xs.index(x)\<close>: the first position of \<open>x\<close>, or \<open>ValueError\<close>.\<close>

fun py_index_from :: "'a list \<Rightarrow> 'a \<Rightarrow> int \<Rightarrow> error + int" where
  "py_index_from [] x i = Inl ValueError_not_in_list"
| "py_index_from (y # ys) x i = (if y = x then Inr i else py_index_from ys x (i + 1))"

definition py_index :: "'a list \<Rightarrow> 'a \<Rightarrow> error + int" where
  "py_index xs x = py_index_from xs x 0"

section \<open>Operations of FiniteStateMachine\<close>

text \<open>\<open>__init__(self, initial_state, states, transitions)\<close>.\<close>

definition init :: "int \<Rightarrow> State list \<Rightarrow> Transition list \<Rightarrow> FiniteStateMachine" where
  "init initial_state sts trs =
     \<lparr>states = sts, transitions = trs, current_state = initial_state, listeners = []\<rparr>"

text \<open>\<open>register_listener\<close>.\<close>

definition register_listener :: "FiniteStateMachine \<Rightarrow> listener \<Rightarrow> FiniteStateMachine" where
  "register_listener self l = self\<lparr>listeners := listeners self @ [l]\<rparr>"

text \<open>
  \<open>def name(state: int) -> str: return self.states[state].name\<close>.  The method is declared
  without the \<open>self\<close> parameter, so it has one positional parameter.  A call
  \<open>machine.name(s)\<close>, the form every caller in pokemon_ai.py uses, passes two arguments
  (the machine and \<open>s\<close>) and Python raises \<open>TypeError\<close> before the body runs.  The model
  takes the arguments of such a call and returns what the call returns.
\<close>

definition fsm_name :: "FiniteStateMachine \<Rightarrow> int \<Rightarrow> error + string" where
  "fsm_name machine s = Inl TypeError"

text \<open>\<open>find_state\<close>: a scan of the state list from index 0, \<open>-1\<close> when the name is absent.\<close>

fun find_state_from :: "State list \<Rightarrow> int \<Rightarrow> string \<Rightarrow> int" where
  "find_state_from [] i nm = - 1"
| "find_state_from (s # ss) i nm = (if name s = nm then i else find_state_from ss (i + 1) nm)"

definition find_state :: "FiniteStateMachine \<Rightarrow> string \<Rightarrow> int" where
  "find_state self nm = find_state_from (states self) 0 nm"

text \<open>\<open>find_transition\<close>: a scan of the transition list with an early return.\<close>

fun find_transition_in :: "Transition list \<Rightarrow> int \<Rightarrow> int \<Rightarrow> Transition option" where
  "find_transition_in [] a b = None"
| "find_transition_in (t # ts) a b =
     (if from_state t = a \<and> to_state t = b then Some t else find_transition_in ts a b)"

definition find_transition :: "FiniteStateMachine \<Rightarrow> int \<Rightarrow> int \<Rightarrow> Transition option" where
  "find_transition self a b = find_transition_in (transitions self) a b"

text \<open>
  The listener loops of \<open>transition_to\<close>.  The first calls \<open>onStateExited\<close> on every
  listener, the second calls \<open>onStateEntered\<close> and then \<open>onTransition\<close> on every listener.
  A callback that raises ends the loop: the exception is returned with the invocations
  made so far, the raising one included, and the listeners after it are not called.
\<close>

fun notify_exited ::
    "handlers \<Rightarrow> FiniteStateMachine \<Rightarrow> listener list \<Rightarrow> error option \<times> invocation list" where
  "notify_exited h self [] = (None, [])"
| "notify_exited h self (l # ls) =
     (case h l (onStateExited (current_state self)) self of
        Some e \<Rightarrow> (Some e, [(l, onStateExited (current_state self), current_state self)])
      | None \<Rightarrow>
          (case notify_exited h self ls of
             (r, log) \<Rightarrow> (r, (l, onStateExited (current_state self), current_state self) # log)))"

fun notify_entered ::
    "handlers \<Rightarrow> FiniteStateMachine \<Rightarrow> Transition \<Rightarrow> listener list
       \<Rightarrow> error option \<times> invocation list" where
  "notify_entered h self transition [] = (None, [])"
| "notify_entered h self transition (l # ls) =
     (case h l (onStateEntered (current_state self)) self of
        Some e \<Rightarrow> (Some e, [(l, onStateEntered (current_state self), current_state self)])
      | None \<Rightarrow>
          (case h l (onTransition transition) self of
             Some e \<Rightarrow> (Some e, [(l, onStateEntered (current_state self), current_state self),
                                 (l, onTransition transition, current_state self)])
           | None \<Rightarrow>
               (case notify_entered h self transition ls of
                  (r, log) \<Rightarrow> (r, (l, onStateEntered (current_state self), current_state self)
                                   # (l, onTransition transition, current_state self) # log))))"

text \<open>
  \<open>transition_to\<close> returns its outcome together with the machine after the call and the
  callback invocations made during the call, also when it raises.  An exception of an
  \<open>onStateExited\<close> callback leaves the method before \<open>current_state\<close> is assigned; an
  exception of an \<open>onStateEntered\<close> or \<open>onTransition\<close> callback leaves it after.
\<close>

definition transition_to ::
    "handlers \<Rightarrow> FiniteStateMachine \<Rightarrow> int
       \<Rightarrow> (error + unit) \<times> FiniteStateMachine \<times> invocation list" where
  "transition_to h self state =
     (case find_transition self (current_state self) state of
        Some transition \<Rightarrow>
          (case notify_exited h self (listeners self) of
             (Some e, log1) \<Rightarrow> (Inl e, self, log1)
           | (None, log1) \<Rightarrow>
               (let self' = self\<lparr>current_state := state\<rparr> in
                (case notify_entered h self' transition (listeners self') of
                   (Some e, log2) \<Rightarrow> (Inl e, self', log1 @ log2)
                 | (None, log2) \<Rightarrow> (Inr (), self', log1 @ log2))))
      | None \<Rightarrow>
          (case py_get (states self) (current_state self) of
             Inl e \<Rightarrow> (Inl e, self, [])
           | Inr s1 \<Rightarrow>
               (case py_get (states self) state of
                  Inl e \<Rightarrow> (Inl e, self, [])
                | Inr s2 \<Rightarrow>
                    (Inl (ValueError (''No transition defined between '' @ name s1
                                        @ '' and '' @ name s2)), self, []))))"

text \<open>
  The callbacks of the class \<open>FSMListener\<close> itself: each body is \<open>pass\<close>.
\<close>

definition FSMListener :: handlers where
  "FSMListener l c machine = None"

text \<open>
  The callbacks of the listener \<open>SensoryCortex\<close> of pokemon_ai.py, as far as their outcome
  goes: \<open>onStateEntered\<close> and \<open>onStateExited\<close> start by calling \<open>UI_FSM.name(state)\<close> on
  the machine and what follows the call raises nothing; \<open>onTransition\<close> is inherited from
  \<open>FSMListener\<close>.
\<close>

definition SensoryCortex :: handlers where
  "SensoryCortex l c machine =
     (case c of
        onStateEntered state \<Rightarrow> (case fsm_name machine state of Inl e \<Rightarrow> Some e | Inr nm \<Rightarrow> None)
      | onStateExited state \<Rightarrow> (case fsm_name machine state of Inl e \<Rightarrow> Some e | Inr nm \<Rightarrow> None)
      | onTransition transition \<Rightarrow> None)"

text \<open>
  \<open>bfs\<close>.  The state of the search is the queue \<open>q\<close>, the list \<open>visited\<close> and the list
  \<open>prev\<close>.  \<open>bfs_neighbors\<close> is the inner \<open>for next in neighbors\<close> loop.
\<close>

fun bfs_neighbors ::
  "int \<Rightarrow> int list \<Rightarrow> int list \<times> bool list \<times> int option list
     \<Rightarrow> error + (int list \<times> bool list \<times> int option list)" where
  "bfs_neighbors current [] (q, visited, prev) = Inr (q, visited, prev)"
| "bfs_neighbors current (nxt # rest) (q, visited, prev) =
     (case py_get visited nxt of
        Inl e \<Rightarrow> Inl e
      | Inr seen \<Rightarrow>
          if \<not> seen then
            (case py_set visited nxt True of
               Inl e \<Rightarrow> Inl e
             | Inr visited' \<Rightarrow>
                 (case py_set prev nxt (Some current) of
                    Inl e \<Rightarrow> Inl e
                  | Inr prev' \<Rightarrow> bfs_neighbors current rest (q @ [nxt], visited', prev')))
          else bfs_neighbors current rest (q, visited, prev))"

text \<open>The number of entries of \<open>visited\<close> that are still \<open>False\<close>.\<close>

definition unvisited :: "bool list \<Rightarrow> nat" where
  "unvisited visited = length (filter Not visited)"

lemma py_norm_less: "py_norm n i = Some k \<Longrightarrow> k < n"
  by (auto simp: py_norm_def split: if_splits)

lemma unvisited_mark:
  "k < length visited \<Longrightarrow> \<not> visited ! k \<Longrightarrow> Suc (unvisited (visited[k := True])) = unvisited visited"
proof (induction visited arbitrary: k)
  case Nil then show ?case by simp
next
  case (Cons v vs)
  then show ?case by (cases k) (auto simp: unvisited_def)
qed

lemma unvisited_mark_le:
  "unvisited (visited[k := True]) \<le> unvisited visited"
proof (induction visited arbitrary: k)
  case Nil then show ?case by (simp add: unvisited_def)
next
  case (Cons v vs)
  then show ?case by (cases k) (auto simp: unvisited_def le_SucI)
qed

lemma bfs_neighbors_measure:
  "bfs_neighbors current ns (q, visited, prev) = Inr (q', visited', prev')
   \<Longrightarrow> length q' + unvisited visited' = length q + unvisited visited"
proof (induction ns arbitrary: q visited prev)
  case Nil then show ?case by simp
next
  case (Cons n ns)
  show ?case
  proof (cases "py_norm (length visited) n")
    case None
    with Cons.prems show ?thesis by (simp add: py_get_def)
  next
    case (Some k)
    then have k: "k < length visited" by (rule py_norm_less)
    show ?thesis
    proof (cases "visited ! k")
      case True
      with Cons.prems Some have "bfs_neighbors current ns (q, visited, prev) = Inr (q', visited', prev')"
        by (simp add: py_get_def)
      then show ?thesis by (rule Cons.IH)
    next
      case False
      with Cons.prems Some obtain prev1 where
        "bfs_neighbors current ns (q @ [n], visited[k := True], prev1) = Inr (q', visited', prev')"
        by (auto simp: py_get_def py_set_def split: sum.splits option.splits)
      then have "length q' + unvisited visited' = length (q @ [n]) + unvisited (visited[k := True])"
        by (rule Cons.IH)
      with unvisited_mark[OF k False] show ?thesis by simp
    qed
  qed
qed

text \<open>The \<open>while len(q) > 0\<close> loop; \<open>q.pop(0)\<close> takes the head of the queue.\<close>

function bfs_loop ::
  "State list \<Rightarrow> int list \<times> bool list \<times> int option list \<Rightarrow> error + (bool list \<times> int option list)" where
  "bfs_loop sts ([], visited, prev) = Inr (visited, prev)"
| "bfs_loop sts (current # q, visited, prev) =
     (case py_get sts current of
        Inl e \<Rightarrow> Inl e
      | Inr st \<Rightarrow>
          (case bfs_neighbors current (map to_state (outgoing st)) (q, visited, prev) of
             Inl e \<Rightarrow> Inl e
           | Inr s' \<Rightarrow> bfs_loop sts s'))"
  by pat_completeness auto
termination
proof (relation "measure (\<lambda>(sts, q, visited, prev). length q + unvisited visited)")
  show "wf (measure (\<lambda>(sts, q, visited, prev). length q + unvisited visited))" by simp
next
  fix sts :: "State list" and current q visited prev and st :: State and s'
  assume "bfs_neighbors current (map to_state (outgoing st)) (q, visited, prev) = Inr s'"
  then show "((sts, s'), (sts, current # q, visited, prev))
        \<in> measure (\<lambda>(sts, q, visited, prev). length q + unvisited visited)"
    by (cases s') (auto dest: bfs_neighbors_measure)
qed

text \<open>
  The loop \<open>while not at == None: path.append(at); at = prev[at]\<close>.  Nothing in the loop
  bounds the number of iterations, so the function is partial: \<open>None\<close> is a loop that does
  not return.
\<close>

partial_function (option) bfs_backtrack ::
  "int option list \<Rightarrow> int option \<Rightarrow> int list \<Rightarrow> (error + int list) option" where
  "bfs_backtrack prev at path =
     (case at of
        None \<Rightarrow> Some (Inr path)
      | Some a \<Rightarrow>
          (case py_get prev a of
             Inl e \<Rightarrow> Some (Inl e)
           | Inr p \<Rightarrow> bfs_backtrack prev p (path @ [a])))"

declare bfs_backtrack.simps [code]

text \<open>
  \<open>bfs(self, end, start)\<close>: \<open>Some (Inr path)\<close> is a returned path, \<open>Some (Inl e)\<close> a raised
  exception, \<open>None\<close> a call that does not return.
\<close>

definition bfs :: "FiniteStateMachine \<Rightarrow> int \<Rightarrow> int \<Rightarrow> (error + int list) option" where
  "bfs self end_state start =
     (case py_set (replicate (length (states self)) False) start True of
        Inl e \<Rightarrow> Some (Inl e)
      | Inr visited \<Rightarrow>
          (case bfs_loop (states self) ([start], visited, replicate (length (states self)) None) of
             Inl e \<Rightarrow> Some (Inl e)
           | Inr (visited', prev) \<Rightarrow>
               (case bfs_backtrack prev (Some end_state) [] of
                  None \<Rightarrow> None
                | Some (Inl e) \<Rightarrow> Some (Inl e)
                | Some (Inr path) \<Rightarrow>
                    (case py_get (rev path) 0 of
                       Inl e \<Rightarrow> Some (Inl e)
                     | Inr first \<Rightarrow> Some (Inr (if first = start then rev path else []))))))"

text \<open>A call \<open>bfs(end)\<close>: the parameter \<open>start\<close> takes its default value \<open>-1\<close>.\<close>

definition bfs_default :: "FiniteStateMachine \<Rightarrow> int \<Rightarrow> (error + int list) option" where
  "bfs_default self end_state = bfs self end_state (- 1)"


text \<open>
  \<open>simulate_action\<close> and \<open>__perform_action\<close>.  \<open>perform_action\<close> is the body of the method up
  to the loop, \<open>perform_action_loop\<close> is its \<open>for transition in ...\<close> loop with the list
  \<open>possible_states\<close> built so far.  The list \<open>visited\<close> is shared by all recursive calls and
  is updated in place, so each function returns it next to its result.  The machine is
  only read: the body assigns to no attribute of \<open>self\<close>, of a state or of a transition.
\<close>

function perform_action ::
    "FiniteStateMachine \<Rightarrow> string option \<Rightarrow> int \<Rightarrow> bool list \<Rightarrow> error + (int list \<times> bool list)"
  and perform_action_loop ::
    "FiniteStateMachine \<Rightarrow> string option \<Rightarrow> Transition list \<Rightarrow> int list \<Rightarrow> bool list
       \<Rightarrow> error + (int list \<times> bool list)" where
  "perform_action self act state visited =
     (case py_set visited state True of
        Inl e \<Rightarrow> Inl e
      | Inr visited' \<Rightarrow>
          (case py_get (states self) state of
             Inl e \<Rightarrow> Inl e
           | Inr st \<Rightarrow> perform_action_loop self act (outgoing st) [] visited'))"
| "perform_action_loop self act [] possible_states visited = Inr (possible_states, visited)"
| "perform_action_loop self act (transition # rest) possible_states visited =
     (if action transition = act then
        (case py_get visited (to_state transition) of
           Inl e \<Rightarrow> Inl e
         | Inr seen \<Rightarrow>
             if \<not> seen then
               (case perform_action self None (to_state transition) visited of
                  Inl e \<Rightarrow> Inl e
                | Inr (found, visited') \<Rightarrow>
                    perform_action_loop self act rest
                      (possible_states @ [to_state transition] @ found) visited')
             else perform_action_loop self act rest possible_states visited)
      else perform_action_loop self act rest possible_states visited)"
  by pat_completeness auto

lemma py_set_unvisited_le:
  "py_set visited i True = Inr visited' \<Longrightarrow> unvisited visited' \<le> unvisited visited"
  by (auto simp: py_set_def unvisited_mark_le split: option.splits)

lemma py_set_unvisited_less:
  "py_get visited i = Inr False \<Longrightarrow> py_set visited i True = Inr visited'
   \<Longrightarrow> unvisited visited' < unvisited visited"
proof -
  assume a: "py_get visited i = Inr False" "py_set visited i True = Inr visited'"
  then obtain k where k: "py_norm (length visited) i = Some k"
    by (auto simp: py_get_def split: option.splits)
  with a have "\<not> visited ! k" "visited' = visited[k := True]"
    by (auto simp: py_get_def py_set_def)
  with unvisited_mark[of k visited] py_norm_less[OF k] show ?thesis by simp
qed

lemma perform_action_unvisited_le:
  "perform_action_perform_action_loop_dom (Inl (self, act, state, visited))
     \<Longrightarrow> perform_action self act state visited = Inr (found, visited')
     \<Longrightarrow> unvisited visited' \<le> unvisited visited"
  "perform_action_perform_action_loop_dom (Inr (self, act, ts, possible_states, visited))
     \<Longrightarrow> perform_action_loop self act ts possible_states visited = Inr (found, visited')
     \<Longrightarrow> unvisited visited' \<le> unvisited visited"
proof (induction self act state visited and self act ts possible_states visited
        arbitrary: found visited' and found visited'
        rule: perform_action_perform_action_loop.pinduct)
  case (1 self act state visited)
  from "1.prems" "1.hyps" obtain v1 st where
    v1: "py_set visited state True = Inr v1" and st: "py_get (states self) state = Inr st"
    and r: "perform_action_loop self act (outgoing st) [] v1 = Inr (found, visited')"
    by (auto simp: perform_action.psimps split: sum.splits)
  from "1.IH"[OF v1 st r] py_set_unvisited_le[OF v1] show ?case by simp
next
  case (2 self act possible_states visited)
  then show ?case by (simp add: perform_action_loop.psimps)
next
  case (3 self act transition rest possible_states visited)
  note eq = "3.prems"[unfolded perform_action_loop.psimps(2)[OF "3.hyps"]]
  show ?case
  proof (cases "action transition = act")
    case False
    with eq have "perform_action_loop self act rest possible_states visited = Inr (found, visited')"
      by simp
    with "3.IH"(4)[OF False] show ?thesis .
  next
    case True
    with eq obtain seen where seen: "py_get visited (to_state transition) = Inr seen"
      by (auto split: sum.splits)
    show ?thesis
    proof (cases seen)
      case True
      with eq seen \<open>action transition = act\<close>
      have "perform_action_loop self act rest possible_states visited = Inr (found, visited')"
        by simp
      with "3.IH"(3)[OF \<open>action transition = act\<close> seen] True show ?thesis by simp
    next
      case False
      with eq seen \<open>action transition = act\<close> obtain f1 v1 where
        inner: "perform_action self None (to_state transition) visited = Inr (f1, v1)"
        and rest: "perform_action_loop self act rest
                     (possible_states @ [to_state transition] @ f1) v1 = Inr (found, visited')"
        by (auto split: sum.splits)
      from False have ns: "\<not> seen" .
      have a: "unvisited v1 \<le> unvisited visited"
        using "3.IH"(1)[OF \<open>action transition = act\<close> seen ns inner] .
      have b: "unvisited visited' \<le> unvisited v1"
        using "3.IH"(2)[OF \<open>action transition = act\<close> seen ns inner refl rest] .
      from a b show ?thesis by simp
    qed
  qed
qed


text \<open>\<open>visited\<close> after \<open>visited[i] = True\<close>, or unchanged when that raises.\<close>

definition mark :: "bool list \<Rightarrow> int \<Rightarrow> bool list" where
  "mark visited i = (case py_set visited i True of Inl e \<Rightarrow> visited | Inr v \<Rightarrow> v)"

termination perform_action
proof (relation "measures
    [\<lambda>x. case x of Inl (self, act, state, visited) \<Rightarrow> unvisited (mark visited state)
               | Inr (self, act, ts, possible_states, visited) \<Rightarrow> unvisited visited,
     \<lambda>x. case x of Inl _ \<Rightarrow> 1 | Inr _ \<Rightarrow> 0,
     \<lambda>x. case x of Inl _ \<Rightarrow> 0 | Inr (self, act, ts, possible_states, visited) \<Rightarrow> length ts]",
    goal_cases)
  case 1
  show ?case by simp
next
  case (2 self act state visited x2 x2a)
  then show ?case by (simp add: mark_def)
next
  case (3 self act transition rest possible_states visited x2)
  then obtain v where "py_set visited (to_state transition) True = Inr v"
    by (auto simp: py_get_def py_set_def split: option.splits)
  with 3 py_set_unvisited_less[of visited "to_state transition" v]
  show ?case by (simp add: mark_def)
next
  case (4 self act transition rest possible_states visited x2 x2a x y)
  then have "unvisited y \<le> unvisited visited"
    using perform_action_unvisited_le(1)[of self None "to_state transition" visited x y] by simp
  then show ?case by auto
next
  case 5
  then show ?case by simp
next
  case 6
  then show ?case by simp
qed

text \<open>
  \<open>simulate_action\<close> returns its outcome together with the machine after the call.
\<close>

definition simulate_action ::
    "FiniteStateMachine \<Rightarrow> string option \<Rightarrow> (error + int list) \<times> FiniteStateMachine" where
  "simulate_action self act =
     (case perform_action self act (current_state self) (replicate (length (states self)) False) of
        Inl e \<Rightarrow> (Inl e, self)
      | Inr (possible_states, visited) \<Rightarrow> (Inr possible_states, self))"

text \<open>
  \<open>load_states\<close> and \<open>from_csv\<close>.  The input is what \<open>csv.reader\<close> yields for the two
  files: a list of rows, each row a list of fields.  Opening and parsing the files is
  outside the model.
\<close>

fun load_states_rows :: "string list list \<Rightarrow> State list \<Rightarrow> error + State list" where
  "load_states_rows [] sts = Inr sts"
| "load_states_rows (row # rows) sts =
     (case py_get row 0 of
        Inl e \<Rightarrow> Inl e
      | Inr nm \<Rightarrow> load_states_rows rows (sts @ [\<lparr>name = nm, incoming = [], outgoing = []\<rparr>]))"

definition load_states :: "string list list \<Rightarrow> error + State list" where
  "load_states rows = load_states_rows rows []"

text \<open>
  The body of the loop over the rows of transitions.csv: it leaves the states and the
  transitions as they are after the row, or raises.
\<close>

definition from_csv_row ::
    "string list \<Rightarrow> string list \<Rightarrow> State list \<times> Transition list
       \<Rightarrow> error + (State list \<times> Transition list)" where
  "from_csv_row state_names row st =
     (case st of (sts, trs) \<Rightarrow>
      (case py_get row 1 of Inl e \<Rightarrow> Inl e | Inr src \<Rightarrow>
      (case py_index state_names src of Inl e \<Rightarrow> Inl e | Inr from_st \<Rightarrow>
      (case py_get row 2 of Inl e \<Rightarrow> Inl e | Inr dst \<Rightarrow>
      (case py_index state_names dst of Inl e \<Rightarrow> Inl e | Inr to_st \<Rightarrow>
      (case py_get row 0 of Inl e \<Rightarrow> Inl e | Inr a \<Rightarrow>
        (let transition = \<lparr>from_state = from_st, to_state = to_st,
                            action = (if a = [] then None else Some a)\<rparr>;
             trs' = trs @ [transition]
         in
      (case py_get sts from_st of Inl e \<Rightarrow> Inl e | Inr s1 \<Rightarrow>
      (case py_set sts from_st (s1\<lparr>outgoing := outgoing s1 @ [transition]\<rparr>) of
         Inl e \<Rightarrow> Inl e | Inr sts1 \<Rightarrow>
      (case py_get sts1 to_st of Inl e \<Rightarrow> Inl e | Inr s2 \<Rightarrow>
      (case py_set sts1 to_st (s2\<lparr>incoming := incoming s2 @ [transition]\<rparr>) of
         Inl e \<Rightarrow> Inl e | Inr sts2 \<Rightarrow> Inr (sts2, trs'))))))))))))"

fun from_csv_rows ::
    "string list \<Rightarrow> string list list \<Rightarrow> State list \<times> Transition list
       \<Rightarrow> error + (State list \<times> Transition list)" where
  "from_csv_rows state_names [] st = Inr st"
| "from_csv_rows state_names (row # rows) st =
     (case from_csv_row state_names row st of
        Inl e \<Rightarrow> Inl e
      | Inr st' \<Rightarrow> from_csv_rows state_names rows st')"

definition from_csv :: "string list list \<Rightarrow> string list list \<Rightarrow> error + FiniteStateMachine" where
  "from_csv state_rows transition_rows =
     (case load_states state_rows of
        Inl e \<Rightarrow> Inl e
      | Inr sts \<Rightarrow>
          (case from_csv_rows (map name sts) transition_rows (sts, []) of
             Inl e \<Rightarrow> Inl e
           | Inr (sts', trs) \<Rightarrow> Inr (init 0 sts' trs)))"

section \<open>Specification predicates\<close>

text \<open>The names of the state table: the first field of each row of states.csv.\<close>

definition state_table :: "string list list \<Rightarrow> string list" where
  "state_table state_rows = concat (map (take 1) state_rows)"

text \<open>A row of transitions.csv with its three fields, whose source and destination are names of the state table.\<close>

definition row_ok :: "string list \<Rightarrow> string list \<Rightarrow> bool" where
  "row_ok names row \<longleftrightarrow> 3 \<le> length row \<and> row ! 1 \<in> set names \<and> row ! 2 \<in> set names"

text \<open>
  Invariants (a) and (c) of the data model: every endpoint of a transition is a valid id,
  and the outgoing and incoming lists of state \<open>i\<close> are the stored transitions that leave
  and enter \<open>i\<close>, in storage order.
\<close>

definition backrefs_ok :: "State list \<Rightarrow> Transition list \<Rightarrow> bool" where
  "backrefs_ok sts trs \<longleftrightarrow>
     (\<forall>i < length sts.
        outgoing (sts ! i) = filter (\<lambda>t. from_state t = int i) trs
      \<and> incoming (sts ! i) = filter (\<lambda>t. to_state t = int i) trs)
   \<and> (\<forall>t \<in> set trs. 0 \<le> from_state t \<and> from_state t < int (length sts)
                    \<and> 0 \<le> to_state t \<and> to_state t < int (length sts))"

text \<open>The transition that the loader creates for a row resolved to the ids \<open>kf\<close> and \<open>kt\<close>.\<close>

definition row_transition :: "string list \<Rightarrow> nat \<Rightarrow> nat \<Rightarrow> Transition" where
  "row_transition row kf kt =
     \<lparr>from_state = int kf, to_state = int kt,
      action = (if row ! 0 = [] then None else Some (row ! 0))\<rparr>"

text \<open>\<open>t\<close> is the transition of the row: its endpoints are the first positions of the two names.\<close>

definition row_gives :: "string list \<Rightarrow> string list \<Rightarrow> Transition \<Rightarrow> bool" where
  "row_gives names row t \<longleftrightarrow>
     (\<exists>kf < length names. \<exists>kt < length names.
         names ! kf = row ! 1 \<and> names ! kt = row ! 2
       \<and> (\<forall>j < kf. names ! j \<noteq> row ! 1) \<and> (\<forall>j < kt. names ! j \<noteq> row ! 2)
       \<and> t = row_transition row kf kt)"

text \<open>The ids that \<open>visited\<close> marks.\<close>

definition vset :: "bool list \<Rightarrow> int set" where
  "vset visited = {v. 0 \<le> v \<and> v < int (length visited) \<and> visited ! nat v}"

text \<open>The targets of the outgoing list of a state: what \<open>bfs\<close> calls its neighbours.\<close>

definition succs :: "State list \<Rightarrow> int \<Rightarrow> int set" where
  "succs sts v =
     (if 0 \<le> v \<and> v < int (length sts) then to_state ` set (outgoing (sts ! nat v)) else {})"

text \<open>Every target of an outgoing transition is a valid id.\<close>

definition wf_out :: "State list \<Rightarrow> bool" where
  "wf_out sts \<longleftrightarrow> (\<forall>v. \<forall>w \<in> succs sts v. 0 \<le> w \<and> w < int (length sts))"

text \<open>
  The predecessor structure of the search, with the depth \<open>lvl\<close> at which a state was
  discovered: \<open>start\<close> is visited, has no predecessor and depth 0; every other visited state
  has a visited predecessor one level up from which an outgoing transition leads to it;
  an unvisited state has no predecessor.
\<close>

definition tree_inv ::
    "State list \<Rightarrow> int \<Rightarrow> (int \<Rightarrow> nat) \<Rightarrow> bool list \<Rightarrow> int option list \<Rightarrow> bool" where
  "tree_inv sts start lvl visited prev \<longleftrightarrow>
     length visited = length sts \<and> length prev = length sts
   \<and> start \<in> vset visited \<and> prev ! nat start = None \<and> lvl start = 0
   \<and> (\<forall>v \<in> vset visited. v \<noteq> start \<longrightarrow>
         (\<exists>u \<in> vset visited. prev ! nat v = Some u \<and> v \<in> succs sts u \<and> lvl v = Suc (lvl u)))
   \<and> (\<forall>v. 0 \<le> v \<and> v < int (length sts) \<and> v \<notin> vset visited \<longrightarrow> prev ! nat v = None)"

text \<open>
  The states of \<open>D\<close> are done: all their neighbours are visited, at most one level deeper.
\<close>

definition closed_inv :: "State list \<Rightarrow> (int \<Rightarrow> nat) \<Rightarrow> int set \<Rightarrow> bool list \<Rightarrow> bool" where
  "closed_inv sts lvl D visited \<longleftrightarrow>
     D \<subseteq> vset visited
   \<and> (\<forall>v \<in> D. \<forall>w \<in> succs sts v. w \<in> vset visited \<and> lvl w \<le> Suc (lvl v))"

text \<open>
  The invariant of the \<open>while\<close> loop: the visited states are the done ones and the queued
  ones, the queue is ordered by depth and spans at most two levels, and no done state is
  deeper than a queued one.
\<close>

definition outer_inv ::
    "State list \<Rightarrow> int \<Rightarrow> (int \<Rightarrow> nat) \<Rightarrow> int set \<Rightarrow> int list \<Rightarrow> bool list \<Rightarrow> int option list \<Rightarrow> bool" where
  "outer_inv sts start lvl D q visited prev \<longleftrightarrow>
     tree_inv sts start lvl visited prev \<and> closed_inv sts lvl D visited
   \<and> vset visited = D \<union> set q
   \<and> sorted (map lvl q)
   \<and> (\<forall>u \<in> set q. lvl u \<le> Suc (lvl (hd q)))
   \<and> (\<forall>v \<in> D. \<forall>u \<in> set q. lvl v \<le> lvl u)"

text \<open>
  The invariant of the \<open>for\<close> loop over the neighbours of the state \<open>c\<close> taken from the queue.
\<close>

definition inner_inv ::
    "State list \<Rightarrow> int \<Rightarrow> int \<Rightarrow> (int \<Rightarrow> nat) \<Rightarrow> int set \<Rightarrow> int list \<Rightarrow> bool list \<Rightarrow> int option list \<Rightarrow> bool" where
  "inner_inv sts start c lvl D q visited prev \<longleftrightarrow>
     tree_inv sts start lvl visited prev \<and> closed_inv sts lvl D visited
   \<and> vset visited = D \<union> set q \<union> {c}
   \<and> sorted (map lvl q)
   \<and> (\<forall>u \<in> set q. lvl c \<le> lvl u \<and> lvl u \<le> Suc (lvl c))
   \<and> (\<forall>v \<in> D. lvl v \<le> lvl c)"

text \<open>Two ids are connected when a stored transition leads from the first to the second.\<close>

definition connected :: "FiniteStateMachine \<Rightarrow> int \<Rightarrow> int \<Rightarrow> bool" where
  "connected self a b \<longleftrightarrow> (\<exists>t \<in> set (transitions self). from_state t = a \<and> to_state t = b)"

text \<open>A non-empty sequence of ids in which every consecutive pair is connected.\<close>

fun is_walk :: "FiniteStateMachine \<Rightarrow> int list \<Rightarrow> bool" where
  "is_walk self [] = False"
| "is_walk self [a] = True"
| "is_walk self (a # b # p) = (connected self a b \<and> is_walk self (b # p))"

text \<open>A walk from \<open>a\<close> to \<open>b\<close>.\<close>

definition path_between :: "FiniteStateMachine \<Rightarrow> int \<Rightarrow> int \<Rightarrow> int list \<Rightarrow> bool" where
  "path_between self a b p \<longleftrightarrow> is_walk self p \<and> hd p = a \<and> last p = b"

text \<open>\<open>b\<close> is reachable from \<open>a\<close>.\<close>

definition reachable :: "FiniteStateMachine \<Rightarrow> int \<Rightarrow> int \<Rightarrow> bool" where
  "reachable self a b \<longleftrightarrow> (\<exists>p. path_between self a b p)"

text \<open>A stored transition with the given action (\<open>None\<close> for epsilon) leads from \<open>a\<close> to \<open>b\<close>.\<close>

definition labelled :: "FiniteStateMachine \<Rightarrow> string option \<Rightarrow> int \<Rightarrow> int \<Rightarrow> bool" where
  "labelled self act a b \<longleftrightarrow>
     (\<exists>t \<in> set (transitions self). from_state t = a \<and> to_state t = b \<and> action t = act)"

text \<open>
  \<open>eps_reach self X x y\<close>: \<open>y\<close> is reached from \<open>x\<close> by zero or more epsilon transitions
  along a path none of whose states, \<open>x\<close> and \<open>y\<close> included, is in \<open>X\<close>.  With \<open>X\<close> empty
  this is the epsilon closure of \<open>x\<close>.
\<close>

inductive eps_reach :: "FiniteStateMachine \<Rightarrow> int set \<Rightarrow> int \<Rightarrow> int \<Rightarrow> bool"
  for self :: FiniteStateMachine and X :: "int set" and x :: int where
  eps_refl: "x \<notin> X \<Longrightarrow> eps_reach self X x x"
| eps_step: "eps_reach self X x y \<Longrightarrow> labelled self None y z \<Longrightarrow> z \<notin> X \<Longrightarrow> eps_reach self X x z"

text \<open>
  Discovery order: every state of the sequence is either one of the direct targets \<open>S\<close> or
  the target of an epsilon transition from a state earlier in the sequence.
\<close>

definition discovery_order :: "FiniteStateMachine \<Rightarrow> int set \<Rightarrow> int list \<Rightarrow> bool" where
  "discovery_order self S found \<longleftrightarrow>
     (\<forall>i < length found. found ! i \<in> S \<or> (\<exists>j < i. labelled self None (found ! j) (found ! i)))"

text \<open>
  What a call of the depth-first exploration guarantees: \<open>visited\<close> afterwards marks the
  states marked before (\<open>X\<close>) and the states found, and the states found are the set \<open>R\<close>,
  without duplicates, in discovery order.
\<close>

definition dfs_post ::
    "FiniteStateMachine \<Rightarrow> int set \<Rightarrow> int set \<Rightarrow> int set \<Rightarrow> bool list \<Rightarrow> int list \<Rightarrow> bool" where
  "dfs_post self X S R visited' found \<longleftrightarrow>
     length visited' = length (states self)
   \<and> vset visited' = X \<union> set found
   \<and> distinct found
   \<and> set found = R
   \<and> discovery_order self S found"

text \<open>
  A machine with an epsilon transition back to the root: \<open>r -a-> x\<close>, \<open>x -eps-> r\<close>,
  \<open>r -eps-> y\<close>.
\<close>

definition detour :: FiniteStateMachine where
  "detour =
     (let ta = \<lparr>from_state = 0, to_state = 1, action = Some ''a''\<rparr>;
          tb = \<lparr>from_state = 1, to_state = 0, action = None\<rparr>;
          tc = \<lparr>from_state = 0, to_state = 2, action = None\<rparr>
      in \<lparr>states = [\<lparr>name = ''r'', incoming = [tb], outgoing = [ta, tc]\<rparr>,
                   \<lparr>name = ''x'', incoming = [ta], outgoing = [tb]\<rparr>,
                   \<lparr>name = ''y'', incoming = [tc], outgoing = []\<rparr>],
          transitions = [ta, tb, tc],
          current_state = 0,
          listeners = []\<rparr>)"

section \<open>The three-state fixture\<close>

text \<open>
  States \<open>[start, middle, end]\<close> and transitions
  \<open>[("", start, middle), ("press_a", middle, end)]\<close>, as \<open>from_csv\<close> builds them.
\<close>

definition t01 :: Transition where
  "t01 = \<lparr>from_state = 0, to_state = 1, action = None\<rparr>"

definition t12 :: Transition where
  "t12 = \<lparr>from_state = 1, to_state = 2, action = Some ''press_a''\<rparr>"

definition fixture :: FiniteStateMachine where
  "fixture =
     \<lparr>states = [\<lparr>name = ''start'', incoming = [], outgoing = [t01]\<rparr>,
                \<lparr>name = ''middle'', incoming = [t01], outgoing = [t12]\<rparr>,
                \<lparr>name = ''end'', incoming = [t12], outgoing = []\<rparr>],
      transitions = [t01, t12],
      current_state = 0,
      listeners = []\<rparr>"

section \<open>Edge lookup\<close>

lemma find_transition_in_None:
  "find_transition_in ts a b = None \<longleftrightarrow> (\<forall>t \<in> set ts. \<not> (from_state t = a \<and> to_state t = b))"
  by (induction ts) auto

lemma find_transition_in_find:
  "find_transition_in ts a b = List.find (\<lambda>t. from_state t = a \<and> to_state t = b) ts"
  by (induction ts) auto

lemma find_transition_in_Some:
  "find_transition_in ts a b = Some t \<longleftrightarrow>
     (\<exists>i < length ts. ts ! i = t \<and> from_state t = a \<and> to_state t = b
        \<and> (\<forall>j < i. \<not> (from_state (ts ! j) = a \<and> to_state (ts ! j) = b)))"
  unfolding find_transition_in_find find_Some_iff by blast

text \<open>
  C8.  For every machine and all ids \<open>a\<close>, \<open>b\<close>: \<open>find_transition a b\<close> is either the
  stored transition at the least position of the transition sequence whose \<open>from_state\<close> is
  \<open>a\<close> and whose \<open>to_state\<close> is \<open>b\<close>, or it is \<open>None\<close> and no stored transition connects \<open>a\<close>
  to \<open>b\<close>.  What it returns is always an element of the stored sequence, so the implicit
  reflexive epsilon edge is never returned: with no stored edge from \<open>a\<close> to \<open>a\<close> the
  answer for \<open>(a, a)\<close> is \<open>None\<close>.
\<close>

theorem find_transition_first_stored:
  "(case find_transition self a b of
      Some t \<Rightarrow>
        t \<in> set (transitions self) \<and>
        (\<exists>i < length (transitions self).
            transitions self ! i = t \<and> from_state t = a \<and> to_state t = b \<and>
            (\<forall>j < i. \<not> (from_state (transitions self ! j) = a
                         \<and> to_state (transitions self ! j) = b)))
    | None \<Rightarrow>
        (\<forall>t \<in> set (transitions self). \<not> (from_state t = a \<and> to_state t = b)))
   \<and> ((\<forall>t \<in> set (transitions self). \<not> (from_state t = a \<and> to_state t = a))
        \<longrightarrow> find_transition self a a = None)"
proof (intro conjI)
  show "case find_transition self a b of
      Some t \<Rightarrow>
        t \<in> set (transitions self) \<and>
        (\<exists>i < length (transitions self).
            transitions self ! i = t \<and> from_state t = a \<and> to_state t = b \<and>
            (\<forall>j < i. \<not> (from_state (transitions self ! j) = a
                         \<and> to_state (transitions self ! j) = b)))
    | None \<Rightarrow>
        (\<forall>t \<in> set (transitions self). \<not> (from_state t = a \<and> to_state t = b))"
  proof (cases "find_transition self a b")
    case None
    then have "\<forall>t \<in> set (transitions self). \<not> (from_state t = a \<and> to_state t = b)"
      unfolding find_transition_def find_transition_in_None .
    with None show ?thesis by simp
  next
    case (Some t)
    then have ex: "\<exists>i < length (transitions self).
            transitions self ! i = t \<and> from_state t = a \<and> to_state t = b \<and>
            (\<forall>j < i. \<not> (from_state (transitions self ! j) = a
                         \<and> to_state (transitions self ! j) = b))"
      unfolding find_transition_def find_transition_in_Some .
    then have "t \<in> set (transitions self)"
      using nth_mem by blast
    with ex Some show ?thesis by simp
  qed
  show "(\<forall>t \<in> set (transitions self). \<not> (from_state t = a \<and> to_state t = a))
        \<longrightarrow> find_transition self a a = None"
    unfolding find_transition_def find_transition_in_None by simp
qed


theorem find_transition_first_stored_witness:
  "find_transition fixture 0 1 = Some t01 \<and> find_transition fixture 0 0 = None"
  using find_transition_first_stored [of fixture 0 1] find_transition_first_stored [of fixture 0 0]
  by (simp add: fixture_def t01_def t12_def find_transition_def)

text \<open>
  C10.  \<open>find_transition\<close> has no failing path: for all integers \<open>a\<close> and \<open>b\<close>, valid ids
  or not, it returns a value; it reads nothing but the stored transition sequence (the
  state sequence, the current state and the listeners do not influence it); and it
  returns \<open>None\<close> exactly when no stored transition has \<open>from_state = a\<close> and
  \<open>to_state = b\<close>.
\<close>

theorem find_transition_total:
  "(\<exists>r. find_transition self a b = r)
   \<and> find_transition (self\<lparr>states := sts, current_state := c, listeners := ls\<rparr>) a b
       = find_transition self a b
   \<and> (find_transition self a b = None
        \<longleftrightarrow> (\<forall>t \<in> set (transitions self). \<not> (from_state t = a \<and> to_state t = b)))"
  by (simp add: find_transition_def find_transition_in_None)

theorem find_transition_total_witness:
  "find_transition fixture (- 1) 2 = None \<and> find_transition fixture 0 7 = None
   \<and> find_transition fixture (- 5) 100 = None"
  using find_transition_total [of fixture "- 1" 2] find_transition_total [of fixture 0 7]
    find_transition_total [of fixture "- 5" 100]
  by (simp add: fixture_def t01_def t12_def)

section \<open>Committing a transition\<close>

lemma py_get_valid:
  "0 \<le> i \<Longrightarrow> i < int (length xs) \<Longrightarrow> py_get xs i = Inr (xs ! nat i)"
  by (simp add: py_get_def py_norm_def)

lemma notify_exited_returns:
  "\<forall>l \<in> set ls. h l (onStateExited (current_state self)) self = None
     \<Longrightarrow> notify_exited h self ls
           = (None, map (\<lambda>l. (l, onStateExited (current_state self), current_state self)) ls)"
  by (induction ls) simp_all

lemma notify_entered_returns:
  "\<forall>l \<in> set ls. h l (onStateEntered (current_state self)) self = None
                   \<and> h l (onTransition tr) self = None
     \<Longrightarrow> notify_entered h self tr ls
           = (None, concat (map (\<lambda>l. [(l, onStateEntered (current_state self), current_state self),
                                        (l, onTransition tr, current_state self)]) ls))"
  by (induction ls) simp_all

text \<open>
  C3, amended.  When some stored transition leads from \<open>current_state\<close> to the target \<open>t\<close>
  and every callback that the call invokes returns, \<open>transition_to t\<close> succeeds.  The
  chosen transition is the stored one at the least matching position.  The invocations
  are, in this order: \<open>onStateExited(old)\<close> for every listener in registration order, made
  while \<open>current_state\<close> is still the old state; then, with \<open>current_state\<close> already equal
  to \<open>t\<close>, for every listener in registration order \<open>onStateEntered(t)\<close> followed by
  \<open>onTransition(chosen)\<close>.  The machine afterwards differs from the machine before only in
  \<open>current_state\<close>, which is \<open>t\<close>.
\<close>

theorem transition_to_success:
  assumes "\<exists>tr \<in> set (transitions self). from_state tr = current_state self \<and> to_state tr = t"
    and "\<forall>l \<in> set (listeners self). h l (onStateExited (current_state self)) self = None"
    and "\<forall>l \<in> set (listeners self). h l (onStateEntered t) (self\<lparr>current_state := t\<rparr>) = None"
    and "\<forall>l \<in> set (listeners self). \<forall>tr.
           find_transition self (current_state self) t = Some tr
             \<longrightarrow> h l (onTransition tr) (self\<lparr>current_state := t\<rparr>) = None"
  shows "\<exists>i < length (transitions self).
           from_state (transitions self ! i) = current_state self
         \<and> to_state (transitions self ! i) = t
         \<and> (\<forall>j < i. \<not> (from_state (transitions self ! j) = current_state self
                        \<and> to_state (transitions self ! j) = t))
         \<and> transition_to h self t =
             (Inr (), self\<lparr>current_state := t\<rparr>,
              map (\<lambda>l. (l, onStateExited (current_state self), current_state self)) (listeners self)
              @ concat (map (\<lambda>l. [(l, onStateEntered t, t),
                                    (l, onTransition (transitions self ! i), t)])
                            (listeners self)))"
proof -
  let ?self' = "self\<lparr>current_state := t\<rparr>"
  from assms(1) have "find_transition self (current_state self) t \<noteq> None"
    unfolding find_transition_def find_transition_in_None by blast
  then obtain chosen where chosen: "find_transition self (current_state self) t = Some chosen"
    by blast
  then obtain i where i: "i < length (transitions self)" "transitions self ! i = chosen"
    "from_state chosen = current_state self" "to_state chosen = t"
    "\<forall>j < i. \<not> (from_state (transitions self ! j) = current_state self
                  \<and> to_state (transitions self ! j) = t)"
    unfolding find_transition_def find_transition_in_Some by blast
  have ex: "notify_exited h self (listeners self)
        = (None, map (\<lambda>l. (l, onStateExited (current_state self), current_state self))
                     (listeners self))"
    using assms(2) by (rule notify_exited_returns)
  have "\<forall>l \<in> set (listeners self). h l (onStateEntered (current_state ?self')) ?self' = None
                   \<and> h l (onTransition chosen) ?self' = None"
    using assms(3,4) chosen by simp
  then have "notify_entered h ?self' chosen (listeners self)
        = (None, concat (map (\<lambda>l. [(l, onStateEntered (current_state ?self'), current_state ?self'),
                                     (l, onTransition chosen, current_state ?self')])
                             (listeners self)))"
    by (rule notify_entered_returns)
  then have en: "notify_entered h ?self' chosen (listeners self)
        = (None, concat (map (\<lambda>l. [(l, onStateEntered t, t), (l, onTransition chosen, t)])
                             (listeners self)))"
    by simp
  have "transition_to h self t =
          (Inr (), ?self',
           map (\<lambda>l. (l, onStateExited (current_state self), current_state self)) (listeners self)
           @ concat (map (\<lambda>l. [(l, onStateEntered t, t), (l, onTransition chosen, t)])
                         (listeners self)))"
    by (simp add: transition_to_def chosen ex en)
  with i show ?thesis by blast
qed

text \<open>Two listeners with the callbacks of \<open>FSMListener\<close> on the fixture.\<close>

theorem transition_to_success_witness:
  "transition_to FSMListener (register_listener (register_listener fixture 7) 9) 1 =
     (Inr (), (register_listener (register_listener fixture 7) 9)\<lparr>current_state := 1\<rparr>,
      [(7, onStateExited 0, 0), (9, onStateExited 0, 0),
       (7, onStateEntered 1, 1), (7, onTransition t01, 1),
       (9, onStateEntered 1, 1), (9, onTransition t01, 1)])"
  using transition_to_success [of "register_listener (register_listener fixture 7) 9" 1 FSMListener]
  by (auto simp add: fixture_def register_listener_def t01_def t12_def less_Suc_eq FSMListener_def)

text \<open>
  Without the condition on the callbacks the statement fails.  With two listeners that
  have the callbacks of \<open>SensoryCortex\<close>, and the stored transition from state 0 to state 1
  of the fixture, the first \<open>onStateExited\<close> raises \<open>TypeError\<close>: \<open>transition_to(1)\<close> raises
  it, \<open>current_state\<close> is still 0 and the second listener has not been called.
\<close>

theorem transition_to_raising_listener_counterexample:
  "find_transition (register_listener (register_listener fixture 7) 9) 0 1 = Some t01
   \<and> transition_to SensoryCortex (register_listener (register_listener fixture 7) 9) 1 =
       (Inl TypeError, register_listener (register_listener fixture 7) 9,
        [(7, onStateExited 0, 0)])"
  by (simp add: transition_to_def find_transition_def fixture_def register_listener_def
        t01_def t12_def SensoryCortex_def fsm_name_def)

text \<open>
  C4.  In a machine whose \<open>current_state\<close> is a valid id, for a valid target id \<open>t\<close> with no
  stored transition from \<open>current_state\<close> to \<open>t\<close>, \<open>transition_to t\<close> raises the
  \<open>ValueError\<close> whose message contains the names of both states, the machine after the
  call is the machine before it, and no callback has been invoked, whatever the callbacks
  of the listeners do.
\<close>

theorem transition_to_failure:
  assumes "0 \<le> current_state self" and "current_state self < int (length (states self))"
    and "0 \<le> t" and "t < int (length (states self))"
    and "\<forall>tr \<in> set (transitions self). \<not> (from_state tr = current_state self \<and> to_state tr = t)"
  shows "transition_to h self t =
           (Inl (ValueError (''No transition defined between ''
                               @ name (states self ! nat (current_state self))
                               @ '' and '' @ name (states self ! nat t))),
            self, [])"
proof -
  from assms(5) have "find_transition self (current_state self) t = None"
    unfolding find_transition_def find_transition_in_None .
  then show ?thesis
    using assms(1-4) by (simp add: transition_to_def py_get_valid)
qed

theorem transition_to_failure_witness:
  "transition_to SensoryCortex (register_listener fixture 7) 2 =
     (Inl (ValueError ''No transition defined between start and end''),
      register_listener fixture 7, [])"
  using transition_to_failure [of "register_listener fixture 7" 2 SensoryCortex]
  by (simp add: fixture_def register_listener_def t01_def t12_def)

section \<open>Evaluation on the fixture\<close>

text \<open>
  C1.  The claim is that \<open>bfs(end)\<close> without a start searches from \<open>current_state\<close>, so that
  on the fixture (\<open>current_state = 0\<close>) \<open>bfs(2)\<close> is \<open>[0, 1, 2]\<close>.  The code takes the
  default \<open>start = -1\<close> as a list index: the search starts at the last state, from which
  nothing is reachable, and the call returns the empty path.  The same search with the
  start given as \<open>0\<close> returns \<open>[0, 1, 2]\<close>.
\<close>

theorem bfs_default_fixture:
  "bfs_default fixture 2 = Some (Inr []) \<and> bfs fixture 2 (current_state fixture) = Some (Inr [0, 1, 2])"
  by code_simp

text \<open>
  \<open>find_state\<close> on the name stored for a valid id: with pairwise distinct names the id
  comes back.
\<close>

lemma find_state_from_nth:
  "distinct (map name sts) \<Longrightarrow> k < length sts
     \<Longrightarrow> find_state_from sts i (name (sts ! k)) = i + int k"
proof (induction sts arbitrary: i k)
  case Nil
  then show ?case by simp
next
  case (Cons s ss)
  show ?case
  proof (cases k)
    case 0
    then show ?thesis by simp
  next
    case (Suc k')
    with Cons.prems have k': "k' < length ss" by simp
    then have "name (ss ! k') \<in> set (map name ss)" by simp
    with Cons.prems(1) have "name s \<noteq> name (ss ! k')" by auto
    moreover from Cons.prems(1) have "distinct (map name ss)" by simp
    ultimately show ?thesis using Cons.IH[OF _ k', of "i + 1"] Suc by simp
  qed
qed

lemma find_state_stored_name:
  "distinct (map name (states self)) \<Longrightarrow> 0 \<le> s \<Longrightarrow> s < int (length (states self))
     \<Longrightarrow> find_state self (name (states self ! nat s)) = s"
  using find_state_from_nth[of "states self" "nat s" 0] by (simp add: find_state_def)

text \<open>
  C2.  The claim is \<open>find_state(name(s)) = s\<close> for every valid id.  The call \<open>name(s)\<close> on a
  machine raises \<open>TypeError\<close>, so there is no string to look up; on the name stored for
  state 1 of the fixture, \<open>find_state\<close> does return 1.
\<close>

theorem name_fixture_raises:
  "fsm_name fixture 1 = Inl TypeError \<and> find_state fixture (name (states fixture ! 1)) = 1"
  by (simp add: fsm_name_def find_state_def fixture_def)

section \<open>Simulating an action: frame\<close>

text \<open>
  C7.  \<open>simulate_action\<close> returns for every machine and every action, the machine after
  the call is the machine before it (\<open>current_state\<close>, states, transitions and listeners
  are the same), and a second call with the same action on the machine left by the first
  returns the same outcome.
\<close>

theorem simulate_action_frame:
  "snd (simulate_action self act) = self
   \<and> current_state (snd (simulate_action self act)) = current_state self
   \<and> fst (simulate_action (snd (simulate_action self act)) act) = fst (simulate_action self act)"
proof -
  have "snd (simulate_action self act) = self"
    by (simp add: simulate_action_def split: sum.splits prod.splits)
  then show ?thesis by simp
qed

section \<open>Loading from the tables\<close>

lemma py_index_from_Inr:
  "x \<in> set xs \<Longrightarrow>
     \<exists>k < length xs. py_index_from xs x i = Inr (i + int k) \<and> xs ! k = x \<and> (\<forall>j < k. xs ! j \<noteq> x)"
proof (induction xs arbitrary: i)
  case Nil then show ?case by simp
next
  case (Cons y ys)
  show ?case
  proof (cases "y = x")
    case True
    then have "0 < length (y # ys) \<and> py_index_from (y # ys) x i = Inr (i + int 0)
       \<and> (y # ys) ! 0 = x \<and> (\<forall>j < 0. (y # ys) ! j \<noteq> x)" by simp
    then show ?thesis by blast
  next
    case False
    with Cons.prems have "x \<in> set ys" by simp
    from Cons.IH[OF this, of "i + 1"] obtain k where k: "k < length ys"
      "py_index_from ys x (i + 1) = Inr (i + 1 + int k)" "ys ! k = x" "\<forall>j < k. ys ! j \<noteq> x"
      by blast
    have "\<forall>j < Suc k. (y # ys) ! j \<noteq> x"
      using False k(4) by (auto simp: nth_Cons split: nat.splits)
    with k False have "Suc k < length (y # ys) \<and> py_index_from (y # ys) x i = Inr (i + int (Suc k))
       \<and> (y # ys) ! Suc k = x \<and> (\<forall>j < Suc k. (y # ys) ! j \<noteq> x)" by simp
    then show ?thesis by blast
  qed
qed

lemma py_index_Inr:
  "x \<in> set xs \<Longrightarrow>
     \<exists>k < length xs. py_index xs x = Inr (int k) \<and> xs ! k = x \<and> (\<forall>j < k. xs ! j \<noteq> x)"
  using py_index_from_Inr[of x xs 0] by (simp add: py_index_def)

lemma py_index_from_Inl:
  "x \<notin> set xs \<Longrightarrow> py_index_from xs x i = Inl ValueError_not_in_list"
  by (induction xs arbitrary: i) auto

lemma py_index_Inl: "x \<notin> set xs \<Longrightarrow> py_index xs x = Inl ValueError_not_in_list"
  by (simp add: py_index_def py_index_from_Inl)

lemma py_index_from_error: "py_index_from xs x i = Inl e \<Longrightarrow> e = ValueError_not_in_list"
  by (induction xs arbitrary: i) (auto split: if_splits)

lemma py_index_error: "py_index xs x = Inl e \<Longrightarrow> e = ValueError_not_in_list"
  by (auto simp: py_index_def dest: py_index_from_error)

lemma py_get_nat: "k < length xs \<Longrightarrow> py_get xs (int k) = Inr (xs ! k)"
  by (simp add: py_get_def py_norm_def)

lemma py_set_nat: "k < length xs \<Longrightarrow> py_set xs (int k) v = Inr (xs[k := v])"
  by (simp add: py_set_def py_norm_def)

lemma py_get_short: "length xs \<le> k \<Longrightarrow> 0 < k \<Longrightarrow> py_get xs (int k) = Inl IndexError"
  by (auto simp add: py_get_def py_norm_def)

lemma load_states_rows_ok:
  "\<forall>r \<in> set rows. r \<noteq> [] \<Longrightarrow>
     load_states_rows rows sts
       = Inr (sts @ map (\<lambda>nm. \<lparr>name = nm, incoming = [], outgoing = []\<rparr>) (state_table rows))"
proof (induction rows arbitrary: sts)
  case Nil then show ?case by (simp add: state_table_def)
next
  case (Cons r rows)
  then obtain f fs where r: "r = f # fs" by (cases r) auto
  have "py_get r 0 = Inr f" using r by (simp add: py_get_def py_norm_def)
  moreover have "state_table (r # rows) = f # state_table rows"
    using r by (simp add: state_table_def)
  ultimately show ?case using Cons by simp
qed

lemma load_states_rows_bad:
  "[] \<in> set rows \<Longrightarrow> load_states_rows rows sts = Inl IndexError"
proof (induction rows arbitrary: sts)
  case Nil then show ?case by simp
next
  case (Cons r rows)
  show ?case
  proof (cases r)
    case Nil
    then show ?thesis by (simp add: py_get_def py_norm_def)
  next
    case (Cons f fs)
    then have "py_get r 0 = Inr f" by (simp add: py_get_def py_norm_def)
    moreover from Cons Cons.prems have "[] \<in> set rows" by auto
    ultimately show ?thesis using Cons.IH by simp
  qed
qed

lemma from_csv_row_ok:
  assumes ok: "row_ok (map name sts) row" and inv: "backrefs_ok sts trs"
  shows "\<exists>kf kt sts'. kf < length sts \<and> kt < length sts
           \<and> name (sts ! kf) = row ! 1 \<and> name (sts ! kt) = row ! 2
           \<and> (\<forall>j < kf. name (sts ! j) \<noteq> row ! 1) \<and> (\<forall>j < kt. name (sts ! j) \<noteq> row ! 2)
           \<and> from_csv_row (map name sts) row (sts, trs) = Inr (sts', trs @ [row_transition row kf kt])
           \<and> map name sts' = map name sts
           \<and> backrefs_ok sts' (trs @ [row_transition row kf kt])"
proof -
  from ok have len: "3 \<le> length row" and src: "row ! 1 \<in> set (map name sts)"
    and dst: "row ! 2 \<in> set (map name sts)"
    by (simp_all add: row_ok_def)
  from py_index_Inr[OF src] obtain kf where kf: "kf < length sts"
    "py_index (map name sts) (row ! 1) = Inr (int kf)" "name (sts ! kf) = row ! 1"
    "\<forall>j < kf. name (sts ! j) \<noteq> row ! 1"
    by auto
  from py_index_Inr[OF dst] obtain kt where kt: "kt < length sts"
    "py_index (map name sts) (row ! 2) = Inr (int kt)" "name (sts ! kt) = row ! 2"
    "\<forall>j < kt. name (sts ! j) \<noteq> row ! 2"
    by auto
  define t where "t = row_transition row kf kt"
  define sts1 where "sts1 = sts[kf := (sts ! kf)\<lparr>outgoing := outgoing (sts ! kf) @ [t]\<rparr>]"
  define sts2 where "sts2 = sts1[kt := (sts1 ! kt)\<lparr>incoming := incoming (sts1 ! kt) @ [t]\<rparr>]"
  have g0: "py_get row 0 = Inr (row ! 0)" "py_get row 1 = Inr (row ! 1)"
    "py_get row 2 = Inr (row ! 2)"
    using len by (auto simp add: py_get_def py_norm_def)
  have l1: "length sts1 = length sts" by (simp add: sts1_def)
  have run: "from_csv_row (map name sts) row (sts, trs) = Inr (sts2, trs @ [t])"
    using kf(1,2) kt(1,2) l1
    by (simp add: from_csv_row_def g0 py_get_nat py_set_nat Let_def t_def row_transition_def
          sts1_def sts2_def)
  have l2: "length sts2 = length sts" by (simp add: sts2_def sts1_def)
  have n1: "name (sts1 ! i) = name (sts ! i)" if "i < length sts" for i
    using that by (cases "i = kf") (simp_all add: sts1_def)
  have n2: "name (sts2 ! i) = name (sts ! i)" if "i < length sts" for i
    using that n1 l1 by (cases "i = kt") (simp_all add: sts2_def)
  have names: "map name sts2 = map name sts"
  proof (rule nth_equalityI)
    show "length (map name sts2) = length (map name sts)" by (simp add: l2)
    fix i assume "i < length (map name sts2)"
    then have "i < length sts" by (simp add: l2)
    then show "map name sts2 ! i = map name sts ! i" by (simp add: n2 l2)
  qed
  have ft: "from_state t = int kf" "to_state t = int kt"
    by (simp_all add: t_def row_transition_def)
  have out: "outgoing (sts2 ! i) = filter (\<lambda>t. from_state t = int i) (trs @ [t])"
    and inc: "incoming (sts2 ! i) = filter (\<lambda>t. to_state t = int i) (trs @ [t])"
    if "i < length sts" for i
  proof -
    from inv that have o: "outgoing (sts ! i) = filter (\<lambda>t. from_state t = int i) trs"
      and n: "incoming (sts ! i) = filter (\<lambda>t. to_state t = int i) trs"
      by (simp_all add: backrefs_ok_def)
    show "outgoing (sts2 ! i) = filter (\<lambda>t. from_state t = int i) (trs @ [t])"
      using that kf(1) kt(1) o ft by (auto simp: sts2_def sts1_def nth_list_update)
    show "incoming (sts2 ! i) = filter (\<lambda>t. to_state t = int i) (trs @ [t])"
      using that kf(1) kt(1) n ft by (auto simp: sts2_def sts1_def nth_list_update)
  qed
  have "backrefs_ok sts2 (trs @ [t])"
    unfolding backrefs_ok_def l2
    using out inc inv kf(1) kt(1) ft by (auto simp: backrefs_ok_def)
  with run names kf kt show ?thesis unfolding t_def by blast
qed

lemma from_csv_row_bad:
  assumes "\<not> row_ok names row"
  shows "\<exists>e. from_csv_row names row st = Inl e"
proof (cases st)
  case (Pair sts trs)
  show ?thesis
  proof (cases "3 \<le> length row")
    case False
    then have "py_get row 1 = Inl IndexError \<or> py_get row 2 = Inl IndexError"
      by (auto simp: py_get_def py_norm_def)
    then show ?thesis
      by (auto simp: from_csv_row_def Pair split: sum.splits)
  next
    case True
    then have g: "py_get row 1 = Inr (row ! 1)" "py_get row 2 = Inr (row ! 2)"
      by (simp_all add: py_get_def py_norm_def)
    from True assms have "row ! 1 \<notin> set names \<or> row ! 2 \<notin> set names"
      by (auto simp: row_ok_def)
    then have "py_index names (row ! 1) = Inl ValueError_not_in_list
             \<or> py_index names (row ! 2) = Inl ValueError_not_in_list"
      by (auto simp: py_index_Inl)
    then show ?thesis
      by (auto simp: from_csv_row_def Pair g split: sum.splits)
  qed
qed

lemma from_csv_row_bad_ValueError:
  assumes "\<not> row_ok names row" and "3 \<le> length row"
  shows "from_csv_row names row st = Inl ValueError_not_in_list"
proof (cases st)
  case (Pair sts trs)
  from assms have g: "py_get row 1 = Inr (row ! 1)" "py_get row 2 = Inr (row ! 2)"
    by (simp_all add: py_get_def py_norm_def)
  from assms have "row ! 1 \<notin> set names \<or> row ! 2 \<notin> set names"
    by (auto simp: row_ok_def)
  then have "py_index names (row ! 1) = Inl ValueError_not_in_list
           \<or> py_index names (row ! 2) = Inl ValueError_not_in_list"
    by (auto simp: py_index_Inl)
  then show ?thesis
    by (auto simp: from_csv_row_def Pair g split: sum.splits dest: py_index_error)
qed

lemma from_csv_rows_ok:
  assumes "\<forall>row \<in> set rows. row_ok (map name sts) row" and "backrefs_ok sts trs"
  shows "\<exists>sts' new. from_csv_rows (map name sts) rows (sts, trs) = Inr (sts', trs @ new)
           \<and> map name sts' = map name sts
           \<and> backrefs_ok sts' (trs @ new)
           \<and> list_all2 (row_gives (map name sts)) rows new"
  using assms
proof (induction rows arbitrary: sts trs)
  case Nil
  then show ?case by simp
next
  case (Cons row rows)
  from Cons.prems have ok: "row_ok (map name sts) row" by simp
  from from_csv_row_ok[OF ok Cons.prems(2)] obtain kf kt sts1 where
    k: "kf < length sts" "kt < length sts" "name (sts ! kf) = row ! 1" "name (sts ! kt) = row ! 2"
       "\<forall>j < kf. name (sts ! j) \<noteq> row ! 1" "\<forall>j < kt. name (sts ! j) \<noteq> row ! 2"
    and run: "from_csv_row (map name sts) row (sts, trs) = Inr (sts1, trs @ [row_transition row kf kt])"
    and nm: "map name sts1 = map name sts"
    and inv: "backrefs_ok sts1 (trs @ [row_transition row kf kt])"
    by blast
  from Cons.prems(1) nm have "\<forall>r \<in> set rows. row_ok (map name sts1) r" by simp
  from Cons.IH[OF this inv] obtain sts2 new where
    r2: "from_csv_rows (map name sts1) rows (sts1, trs @ [row_transition row kf kt])
           = Inr (sts2, (trs @ [row_transition row kf kt]) @ new)"
    and nm2: "map name sts2 = map name sts1"
    and inv2: "backrefs_ok sts2 ((trs @ [row_transition row kf kt]) @ new)"
    and all2: "list_all2 (row_gives (map name sts1)) rows new"
    by blast
  have g: "row_gives (map name sts) row (row_transition row kf kt)"
  proof -
    have "kf < length (map name sts) \<and> kt < length (map name sts)
        \<and> map name sts ! kf = row ! 1 \<and> map name sts ! kt = row ! 2
        \<and> (\<forall>j < kf. map name sts ! j \<noteq> row ! 1) \<and> (\<forall>j < kt. map name sts ! j \<noteq> row ! 2)
        \<and> row_transition row kf kt = row_transition row kf kt"
      using k by simp
    then show ?thesis unfolding row_gives_def by blast
  qed
  have "from_csv_rows (map name sts) (row # rows) (sts, trs)
          = Inr (sts2, trs @ (row_transition row kf kt # new))"
    using run r2 nm by simp
  moreover have "map name sts2 = map name sts" using nm nm2 by simp
  moreover have "backrefs_ok sts2 (trs @ (row_transition row kf kt # new))" using inv2 by simp
  moreover have "list_all2 (row_gives (map name sts)) (row # rows) (row_transition row kf kt # new)"
    using g all2 nm by simp
  ultimately show ?case by blast
qed

lemma from_csv_rows_bad:
  "\<exists>row \<in> set rows. \<not> row_ok names row \<Longrightarrow> \<exists>e. from_csv_rows names rows st = Inl e"
proof (induction rows arbitrary: st)
  case Nil
  then show ?case by simp
next
  case (Cons row rows)
  show ?case
  proof (cases "from_csv_row names row st")
    case (Inl e)
    then show ?thesis by simp
  next
    case (Inr st')
    with from_csv_row_bad[of names row st] have "row_ok names row" by auto
    with Cons.prems have "\<exists>r \<in> set rows. \<not> row_ok names r" by simp
    from Cons.IH[OF this] Inr show ?thesis by simp
  qed
qed

lemma from_csv_rows_bad_ValueError:
  assumes "\<exists>row \<in> set rows. \<not> row_ok (map name sts) row"
    and "\<forall>row \<in> set rows. 3 \<le> length row" and "backrefs_ok sts trs"
  shows "from_csv_rows (map name sts) rows (sts, trs) = Inl ValueError_not_in_list"
  using assms
proof (induction rows arbitrary: sts trs)
  case Nil
  then show ?case by simp
next
  case (Cons row rows)
  show ?case
  proof (cases "row_ok (map name sts) row")
    case False
    with Cons.prems(2) from_csv_row_bad_ValueError[of "map name sts" row "(sts, trs)"]
    show ?thesis by simp
  next
    case True
    from from_csv_row_ok[OF True Cons.prems(3)] obtain sts1 t where
      run: "from_csv_row (map name sts) row (sts, trs) = Inr (sts1, trs @ [t])"
      and nm: "map name sts1 = map name sts" and inv: "backrefs_ok sts1 (trs @ [t])"
      by blast
    from True Cons.prems(1) nm have "\<exists>r \<in> set rows. \<not> row_ok (map name sts1) r" by simp
    moreover from Cons.prems(2) have "\<forall>r \<in> set rows. 3 \<le> length r" by simp
    ultimately have "from_csv_rows (map name sts1) rows (sts1, trs @ [t]) = Inl ValueError_not_in_list"
      using inv by (rule Cons.IH)
    with run nm show ?thesis by simp
  qed
qed

lemma load_states_ok:
  "\<forall>r \<in> set rows. r \<noteq> [] \<Longrightarrow>
     load_states rows = Inr (map (\<lambda>nm. \<lparr>name = nm, incoming = [], outgoing = []\<rparr>) (state_table rows))"
  by (simp add: load_states_def load_states_rows_ok)

lemma names_fresh_states:
  "map name (map (\<lambda>nm. \<lparr>name = nm, incoming = [], outgoing = []\<rparr>) ns) = ns"
  by (induction ns) simp_all

lemma names_fresh_states_comp:
  "map (name \<circ> (\<lambda>nm. \<lparr>name = nm, incoming = [], outgoing = []\<rparr>)) ns = ns"
  by (induction ns) simp_all

lemma backrefs_ok_fresh:
  "backrefs_ok (map (\<lambda>nm. \<lparr>name = nm, incoming = [], outgoing = []\<rparr>) ns) []"
  by (simp add: backrefs_ok_def)

text \<open>
  C9.  If some row of the transition table is not a three-field row whose source and
  destination are names of the state table, \<open>from_csv\<close> raises and returns no machine;
  when every row of both tables has its fields, the exception is the \<open>ValueError\<close> of the
  name lookup.  On well-formed input \<open>from_csv\<close> returns a machine with
  \<open>current_state = 0\<close> and no listeners, whose states carry the names of the state table,
  whose transition sequence holds one transition per row, in row order, between the
  ids of the row's two names, and in which every state's outgoing and incoming lists
  hold exactly the stored transitions that leave and enter it.
\<close>

theorem from_csv_malformed_or_built:
  "((\<exists>row \<in> set transition_rows. \<not> row_ok (state_table state_rows) row)
      \<longrightarrow> (\<exists>e. from_csv state_rows transition_rows = Inl e))
   \<and> ((\<forall>r \<in> set state_rows. r \<noteq> []) \<and> (\<forall>row \<in> set transition_rows. 3 \<le> length row)
        \<and> (\<exists>row \<in> set transition_rows. \<not> row_ok (state_table state_rows) row)
      \<longrightarrow> from_csv state_rows transition_rows = Inl ValueError_not_in_list)
   \<and> ((\<forall>r \<in> set state_rows. r \<noteq> [])
        \<and> (\<forall>row \<in> set transition_rows. row_ok (state_table state_rows) row)
      \<longrightarrow> (\<exists>m. from_csv state_rows transition_rows = Inr m
             \<and> current_state m = 0 \<and> listeners m = []
             \<and> map name (states m) = state_table state_rows
             \<and> list_all2 (row_gives (state_table state_rows)) transition_rows (transitions m)
             \<and> backrefs_ok (states m) (transitions m)))"
proof (intro conjI impI)
  assume bad: "\<exists>row \<in> set transition_rows. \<not> row_ok (state_table state_rows) row"
  show "\<exists>e. from_csv state_rows transition_rows = Inl e"
  proof (cases "[] \<in> set state_rows")
    case True
    then show ?thesis by (simp add: from_csv_def load_states_def load_states_rows_bad)
  next
    case False
    then have ne: "\<forall>r \<in> set state_rows. r \<noteq> []" by auto
    from from_csv_rows_bad[OF bad] obtain e where
      "from_csv_rows (state_table state_rows) transition_rows
         (map (\<lambda>nm. \<lparr>name = nm, incoming = [], outgoing = []\<rparr>) (state_table state_rows), []) = Inl e"
      by blast
    then show ?thesis
      by (simp add: from_csv_def load_states_ok[OF ne] names_fresh_states_comp)
  qed
next
  assume a: "(\<forall>r \<in> set state_rows. r \<noteq> []) \<and> (\<forall>row \<in> set transition_rows. 3 \<le> length row)
        \<and> (\<exists>row \<in> set transition_rows. \<not> row_ok (state_table state_rows) row)"
  let ?sts = "map (\<lambda>nm. \<lparr>name = nm, incoming = [], outgoing = []\<rparr>) (state_table state_rows)"
  from a have ne: "\<forall>r \<in> set state_rows. r \<noteq> []" by blast
  have "from_csv_rows (map name ?sts) transition_rows (?sts, []) = Inl ValueError_not_in_list"
  proof (rule from_csv_rows_bad_ValueError)
    show "\<exists>row \<in> set transition_rows. \<not> row_ok (map name ?sts) row"
      using a by (simp add: names_fresh_states names_fresh_states_comp)
    show "\<forall>row \<in> set transition_rows. 3 \<le> length row" using a by blast
    show "backrefs_ok ?sts []" by (rule backrefs_ok_fresh)
  qed
  then show "from_csv state_rows transition_rows = Inl ValueError_not_in_list"
    by (simp add: from_csv_def load_states_ok[OF ne] names_fresh_states names_fresh_states_comp)
next
  assume a: "(\<forall>r \<in> set state_rows. r \<noteq> [])
        \<and> (\<forall>row \<in> set transition_rows. row_ok (state_table state_rows) row)"
  let ?sts = "map (\<lambda>nm. \<lparr>name = nm, incoming = [], outgoing = []\<rparr>) (state_table state_rows)"
  from a have ne: "\<forall>r \<in> set state_rows. r \<noteq> []" by blast
  have "\<forall>row \<in> set transition_rows. row_ok (map name ?sts) row"
    using a by (simp add: names_fresh_states names_fresh_states_comp)
  from from_csv_rows_ok[OF this backrefs_ok_fresh] obtain sts' new where
    run: "from_csv_rows (map name ?sts) transition_rows (?sts, []) = Inr (sts', [] @ new)"
    and nm: "map name sts' = map name ?sts"
    and inv: "backrefs_ok sts' ([] @ new)"
    and all2: "list_all2 (row_gives (map name ?sts)) transition_rows new"
    by blast
  have "from_csv state_rows transition_rows = Inr (init 0 sts' new)"
    using run by (simp add: from_csv_def load_states_ok[OF ne] names_fresh_states names_fresh_states_comp)
  moreover have "map name sts' = state_table state_rows"
    using nm by (simp add: names_fresh_states names_fresh_states_comp)
  moreover have "list_all2 (row_gives (state_table state_rows)) transition_rows new"
    using all2 by (simp add: names_fresh_states names_fresh_states_comp)
  ultimately show "\<exists>m. from_csv state_rows transition_rows = Inr m
             \<and> current_state m = 0 \<and> listeners m = []
             \<and> map name (states m) = state_table state_rows
             \<and> list_all2 (row_gives (state_table state_rows)) transition_rows (transitions m)
             \<and> backrefs_ok (states m) (transitions m)"
    using inv by (simp add: init_def)
qed

theorem from_csv_malformed_or_built_witness:
  "from_csv [[''start''], [''middle''], [''end'']]
            [['''', ''start'', ''middle''], [''press_a'', ''middle'', ''end'']] = Inr fixture
   \<and> backrefs_ok (states fixture) (transitions fixture)
   \<and> from_csv [[''start''], [''middle''], [''end'']]
            [['''', ''start'', ''middle''], [''press_a'', ''middle'', ''nowhere'']]
       = Inl ValueError_not_in_list"
proof -
  let ?S = "[[''start''], [''middle''], [''end'']]"
  let ?T = "[['''', ''start'', ''middle''], [''press_a'', ''middle'', ''end'']]"
  let ?B = "[['''', ''start'', ''middle''], [''press_a'', ''middle'', ''nowhere'']]"
  have ev: "from_csv ?S ?T = Inr fixture"
    by code_simp
  have good: "(\<forall>r \<in> set ?S. r \<noteq> []) \<and> (\<forall>row \<in> set ?T. row_ok (state_table ?S) row)"
    by (simp add: row_ok_def state_table_def)
  have bad: "(\<forall>r \<in> set ?S. r \<noteq> []) \<and> (\<forall>row \<in> set ?B. 3 \<le> length row)
        \<and> (\<exists>row \<in> set ?B. \<not> row_ok (state_table ?S) row)"
    by (simp add: row_ok_def state_table_def)
  from from_csv_malformed_or_built [of ?T ?S] good ev
  have "backrefs_ok (states fixture) (transitions fixture)"
    by auto
  moreover from from_csv_malformed_or_built [of ?B ?S] bad
  have "from_csv ?S ?B = Inl ValueError_not_in_list"
    by blast
  ultimately show ?thesis using ev by simp
qed

section \<open>Breadth-first search\<close>

lemma vset_mark:
  "0 \<le> w \<Longrightarrow> w < int (length visited) \<Longrightarrow> vset (visited[nat w := True]) = insert w (vset visited)"
  by (auto simp: vset_def nth_list_update)

lemma vset_valid: "v \<in> vset visited \<Longrightarrow> 0 \<le> v \<and> v < int (length visited)"
  by (simp add: vset_def)

lemma py_set_valid:
  "0 \<le> i \<Longrightarrow> i < int (length xs) \<Longrightarrow> py_set xs i v = Inr (xs[nat i := v])"
  by (simp add: py_set_def py_norm_def)

text \<open>One neighbour that is already visited.\<close>

lemma inner_seen:
  assumes inv: "inner_inv sts start c lvl D q visited prev"
    and w: "w \<in> vset visited"
  shows "lvl w \<le> Suc (lvl c)"
proof -
  from inv have "vset visited = D \<union> set q \<union> {c}" by (simp add: inner_inv_def)
  with w consider "w \<in> D" | "w \<in> set q" | "w = c" by blast
  then show ?thesis
  proof cases
    case 1
    with inv have "lvl w \<le> lvl c" by (simp add: inner_inv_def)
    then show ?thesis by simp
  next
    case 2
    with inv show ?thesis by (simp add: inner_inv_def)
  next
    case 3
    then show ?thesis by simp
  qed
qed

text \<open>One neighbour that is not yet visited.\<close>

lemma tree_inv_discover:
  assumes t: "tree_inv sts start lvl visited prev"
    and c: "c \<in> vset visited" and wc: "w \<in> succs sts c"
    and w: "0 \<le> w" "w < int (length sts)" "w \<notin> vset visited"
  shows "tree_inv sts start (lvl(w := Suc (lvl c))) (visited[nat w := True]) (prev[nat w := Some c])"
proof -
  from t have len: "length visited = length sts" "length prev = length sts"
    and st: "start \<in> vset visited" "prev ! nat start = None" "lvl start = 0"
    and par: "\<forall>v \<in> vset visited. v \<noteq> start \<longrightarrow>
         (\<exists>u \<in> vset visited. prev ! nat v = Some u \<and> v \<in> succs sts u \<and> lvl v = Suc (lvl u))"
    and un: "\<forall>v. 0 \<le> v \<and> v < int (length sts) \<and> v \<notin> vset visited \<longrightarrow> prev ! nat v = None"
    by (simp_all add: tree_inv_def)
  let ?V' = "vset (visited[nat w := True])"
  let ?lvl' = "lvl(w := Suc (lvl c))"
  let ?prev' = "prev[nat w := Some c]"
  have V': "?V' = insert w (vset visited)"
    using w len by (simp add: vset_mark)
  have neq: "nat v \<noteq> nat w" if "v \<in> vset visited" for v
  proof
    assume "nat v = nat w"
    moreover from that have "0 \<le> v" by (simp add: vset_def)
    ultimately have "v = w" using w(1) by simp
    with that w(3) show False by simp
  qed
  have same_prev: "?prev' ! nat v = prev ! nat v" if "v \<in> vset visited" for v
    using neq[OF that] by simp
  have same_lvl: "?lvl' v = lvl v" if "v \<in> vset visited" for v
    using that w(3) by auto
  have a: "start \<in> ?V'" using st(1) V' by simp
  have b: "?prev' ! nat start = None" using same_prev[OF st(1)] st(2) by simp
  have c': "?lvl' start = 0" using same_lvl[OF st(1)] st(3) by simp
  have d: "\<exists>u \<in> ?V'. ?prev' ! nat v = Some u \<and> v \<in> succs sts u \<and> ?lvl' v = Suc (?lvl' u)"
    if v: "v \<in> ?V'" "v \<noteq> start" for v
  proof (cases "v = w")
    case True
    have "c \<in> ?V'" using c V' by simp
    moreover have "?prev' ! nat v = Some c" using True w len by simp
    moreover have "v \<in> succs sts c" using True wc by simp
    moreover have "?lvl' v = Suc (?lvl' c)" using True same_lvl[OF c] by simp
    ultimately show ?thesis by blast
  next
    case False
    with v V' have vv: "v \<in> vset visited" by simp
    with par v(2) obtain u where u: "u \<in> vset visited" "prev ! nat v = Some u"
      "v \<in> succs sts u" "lvl v = Suc (lvl u)" by blast
    have "u \<in> ?V'" using u(1) V' by simp
    moreover have "?prev' ! nat v = Some u" using same_prev[OF vv] u(2) by simp
    moreover have "?lvl' v = Suc (?lvl' u)" using same_lvl[OF vv] same_lvl[OF u(1)] u(4) by simp
    ultimately show ?thesis using u(3) by blast
  qed
  have e: "?prev' ! nat v = None"
    if v: "0 \<le> v \<and> v < int (length sts) \<and> v \<notin> ?V'" for v
  proof -
    from v V' have "v \<noteq> w" "v \<notin> vset visited" by auto
    with v w(1) have "nat v \<noteq> nat w" by (simp add: eq_nat_nat_iff)
    then have "?prev' ! nat v = prev ! nat v" by simp
    with un v \<open>v \<notin> vset visited\<close> show ?thesis by simp
  qed
  show ?thesis
    unfolding tree_inv_def using len a b c' d e by simp
qed

lemma closed_inv_discover:
  assumes cl: "closed_inv sts lvl D visited"
    and w: "0 \<le> w" "w < int (length visited)" "w \<notin> vset visited"
  shows "closed_inv sts (lvl(w := x)) D (visited[nat w := True])"
proof -
  have V': "vset (visited[nat w := True]) = insert w (vset visited)"
    using w by (simp add: vset_mark)
  from cl have sub: "D \<subseteq> vset visited"
    and cls: "\<forall>v \<in> D. \<forall>u \<in> succs sts v. u \<in> vset visited \<and> lvl u \<le> Suc (lvl v)"
    by (simp_all add: closed_inv_def)
  have "u \<in> insert w (vset visited) \<and> (lvl(w := x)) u \<le> Suc ((lvl(w := x)) v)"
    if "v \<in> D" "u \<in> succs sts v" for v u
  proof -
    from cls that have u: "u \<in> vset visited" "lvl u \<le> Suc (lvl v)" by auto
    from that sub have "v \<in> vset visited" by blast
    with u w(3) have "u \<noteq> w" "v \<noteq> w" by auto
    with u show ?thesis by simp
  qed
  with sub show ?thesis unfolding closed_inv_def V' by blast
qed

lemma inner_discover:
  assumes inv: "inner_inv sts start c lvl D q visited prev"
    and wc: "w \<in> succs sts c"
    and w: "0 \<le> w" "w < int (length sts)" "w \<notin> vset visited"
  shows "inner_inv sts start c (lvl(w := Suc (lvl c))) D (q @ [w])
           (visited[nat w := True]) (prev[nat w := Some c])"
proof -
  from inv have t: "tree_inv sts start lvl visited prev"
    and cl: "closed_inv sts lvl D visited"
    and V: "vset visited = D \<union> set q \<union> {c}"
    and so: "sorted (map lvl q)"
    and bq: "\<forall>u \<in> set q. lvl c \<le> lvl u \<and> lvl u \<le> Suc (lvl c)"
    and bd: "\<forall>v \<in> D. lvl v \<le> lvl c"
    by (simp_all add: inner_inv_def)
  from t have len: "length visited = length sts" by (simp add: tree_inv_def)
  from V have c: "c \<in> vset visited" by simp
  let ?lvl' = "lvl(w := Suc (lvl c))"
  have same: "?lvl' v = lvl v" if "v \<in> vset visited" for v
    using that w(3) by auto
  have inq: "u \<in> vset visited" if "u \<in> set q" for u using that V by simp
  have inD: "v \<in> vset visited" if "v \<in> D" for v using that V by simp
  have mq: "map ?lvl' q = map lvl q"
    using same inq by simp
  have 1: "tree_inv sts start ?lvl' (visited[nat w := True]) (prev[nat w := Some c])"
    using t c wc w by (rule tree_inv_discover)
  have 2: "closed_inv sts ?lvl' D (visited[nat w := True])"
    using cl w(1) _ w(3) by (rule closed_inv_discover) (simp add: len w(2))
  have 3: "vset (visited[nat w := True]) = D \<union> set (q @ [w]) \<union> {c}"
    using w len V by (auto simp add: vset_mark)
  have 4: "sorted (map ?lvl' (q @ [w]))"
    using so bq by (simp add: mq sorted_append)
  have 5: "\<forall>u \<in> set (q @ [w]). ?lvl' c \<le> ?lvl' u \<and> ?lvl' u \<le> Suc (?lvl' c)"
  proof
    fix u assume "u \<in> set (q @ [w])"
    then consider "u \<in> set q" | "u = w" by auto
    then show "?lvl' c \<le> ?lvl' u \<and> ?lvl' u \<le> Suc (?lvl' c)"
    proof cases
      case 1
      with bq same[OF c] same[OF inq[OF 1]] show ?thesis by simp
    next
      case 2
      with same[OF c] show ?thesis by simp
    qed
  qed
  have 6: "\<forall>v \<in> D. ?lvl' v \<le> ?lvl' c"
    using bd same[OF c] same[OF inD] by simp
  show ?thesis
    unfolding inner_inv_def using 1 2 3 4 5 6 by blast
qed

lemma bfs_neighbors_inv:
  assumes "inner_inv sts start c lvl D q visited prev"
    and "set ns \<subseteq> succs sts c" and "wf_out sts"
  shows "\<exists>q' visited' prev' lvl'.
           bfs_neighbors c ns (q, visited, prev) = Inr (q', visited', prev')
         \<and> inner_inv sts start c lvl' D q' visited' prev'
         \<and> (\<forall>w \<in> set ns. w \<in> vset visited' \<and> lvl' w \<le> Suc (lvl' c))
         \<and> vset visited \<subseteq> vset visited'
         \<and> (\<forall>v \<in> vset visited. lvl' v = lvl v)"
  using assms
proof (induction ns arbitrary: q visited prev lvl)
  case Nil
  then show ?case by auto
next
  case (Cons w ns)
  note inv = Cons.prems(1)
  from Cons.prems(2) have wc: "w \<in> succs sts c" and ns: "set ns \<subseteq> succs sts c" by simp_all
  from wc Cons.prems(3) have w: "0 \<le> w" "w < int (length sts)"
    by (auto simp: wf_out_def)
  from inv have len: "length visited = length sts" "length prev = length sts"
    by (simp_all add: inner_inv_def tree_inv_def)
  from inv have c: "c \<in> vset visited" by (simp add: inner_inv_def)
  have get: "py_get visited w = Inr (visited ! nat w)"
    using w len by (simp add: py_get_valid)
  show ?case
  proof (cases "visited ! nat w")
    case True
    then have wv: "w \<in> vset visited" using w len by (simp add: vset_def)
    from Cons.IH[OF inv ns Cons.prems(3)] obtain q' visited' prev' lvl' where
      r: "bfs_neighbors c ns (q, visited, prev) = Inr (q', visited', prev')"
      and i: "inner_inv sts start c lvl' D q' visited' prev'"
      and a: "\<forall>w \<in> set ns. w \<in> vset visited' \<and> lvl' w \<le> Suc (lvl' c)"
      and m: "vset visited \<subseteq> vset visited'" "\<forall>v \<in> vset visited. lvl' v = lvl v"
      by blast
    have "bfs_neighbors c (w # ns) (q, visited, prev) = Inr (q', visited', prev')"
      using r get True by simp
    moreover have "w \<in> vset visited' \<and> lvl' w \<le> Suc (lvl' c)"
      using inner_seen[OF inv wv] m wv c by auto
    ultimately show ?thesis using i a m by auto
  next
    case False
    then have wv: "w \<notin> vset visited" by (simp add: vset_def)
    let ?lvl1 = "lvl(w := Suc (lvl c))"
    let ?v1 = "visited[nat w := True]"
    let ?p1 = "prev[nat w := Some c]"
    have i1: "inner_inv sts start c ?lvl1 D (q @ [w]) ?v1 ?p1"
      using inv wc w wv by (rule inner_discover)
    from Cons.IH[OF i1 ns Cons.prems(3)] obtain q' visited' prev' lvl' where
      r: "bfs_neighbors c ns (q @ [w], ?v1, ?p1) = Inr (q', visited', prev')"
      and i: "inner_inv sts start c lvl' D q' visited' prev'"
      and a: "\<forall>w \<in> set ns. w \<in> vset visited' \<and> lvl' w \<le> Suc (lvl' c)"
      and m: "vset ?v1 \<subseteq> vset visited'" "\<forall>v \<in> vset ?v1. lvl' v = ?lvl1 v"
      by blast
    have V1: "vset ?v1 = insert w (vset visited)"
      using w len by (simp add: vset_mark)
    have run: "bfs_neighbors c (w # ns) (q, visited, prev) = Inr (q', visited', prev')"
      using r get False w len by (simp add: py_set_valid)
    have cw: "c \<noteq> w" using c wv by auto
    have "lvl' w = Suc (lvl c)" using m(2) V1 by simp
    moreover have "lvl' c = lvl c" using m(2) V1 c cw by simp
    ultimately have ww: "w \<in> vset visited' \<and> lvl' w \<le> Suc (lvl' c)"
      using m(1) V1 by auto
    have mono: "vset visited \<subseteq> vset visited'" using m(1) V1 by auto
    have keep: "\<forall>v \<in> vset visited. lvl' v = lvl v"
    proof
      fix v assume v: "v \<in> vset visited"
      then have "v \<noteq> w" using wv by auto
      with m(2) V1 v show "lvl' v = lvl v" by simp
    qed
    from run i a ww mono keep show ?thesis by auto
  qed
qed

lemma bfs_loop_inv:
  assumes "outer_inv sts start lvl D q visited prev" and "wf_out sts"
  shows "\<exists>visited' prev' lvl' D'.
           bfs_loop sts (q, visited, prev) = Inr (visited', prev')
         \<and> outer_inv sts start lvl' D' [] visited' prev'"
  using assms
proof (induction sts "(q, visited, prev)" arbitrary: q visited prev lvl D rule: bfs_loop.induct)
  case (1 sts visited prev)
  then show ?case by auto
next
  case (2 sts c q visited prev)
  note inv = "2.prems"(1)
  from inv have t: "tree_inv sts start lvl visited prev"
    and cl: "closed_inv sts lvl D visited"
    and V: "vset visited = D \<union> set (c # q)"
    and so: "sorted (map lvl (c # q))"
    and bq: "\<forall>u \<in> set (c # q). lvl u \<le> Suc (lvl c)"
    and bd: "\<forall>v \<in> D. \<forall>u \<in> set (c # q). lvl v \<le> lvl u"
    by (simp_all add: outer_inv_def)
  from t have len: "length visited = length sts" by (simp add: tree_inv_def)
  from V have cV: "c \<in> vset visited" by simp
  then have cr: "0 \<le> c" "c < int (length sts)" using len by (simp_all add: vset_def)
  have get: "py_get sts c = Inr (sts ! nat c)" using cr by (simp add: py_get_valid)
  let ?ns = "map to_state (outgoing (sts ! nat c))"
  have ns: "set ?ns \<subseteq> succs sts c" using cr by (simp add: succs_def)
  have ns': "succs sts c \<subseteq> set ?ns" using cr by (simp add: succs_def)
  have inner: "inner_inv sts start c lvl D q visited prev"
    unfolding inner_inv_def using t cl V so bq bd by auto
  from bfs_neighbors_inv[OF inner ns "2.prems"(2)] obtain q1 v1 p1 lvl1 where
    r: "bfs_neighbors c ?ns (q, visited, prev) = Inr (q1, v1, p1)"
    and i: "inner_inv sts start c lvl1 D q1 v1 p1"
    and a: "\<forall>w \<in> set ?ns. w \<in> vset v1 \<and> lvl1 w \<le> Suc (lvl1 c)"
    by blast
  from i have t1: "tree_inv sts start lvl1 v1 p1"
    and cl1: "closed_inv sts lvl1 D v1"
    and V1: "vset v1 = D \<union> set q1 \<union> {c}"
    and so1: "sorted (map lvl1 q1)"
    and bq1: "\<forall>u \<in> set q1. lvl1 c \<le> lvl1 u \<and> lvl1 u \<le> Suc (lvl1 c)"
    and bd1: "\<forall>v \<in> D. lvl1 v \<le> lvl1 c"
    by (simp_all add: inner_inv_def)
  have cl2: "closed_inv sts lvl1 (insert c D) v1"
    using cl1 V1 a ns' unfolding closed_inv_def by blast
  have V2: "vset v1 = insert c D \<union> set q1" using V1 by auto
  have b2: "\<forall>u \<in> set q1. lvl1 u \<le> Suc (lvl1 (hd q1))"
  proof
    fix u assume u: "u \<in> set q1"
    then have "q1 \<noteq> []" by auto
    then have "hd q1 \<in> set q1" by simp
    with bq1 have "lvl1 c \<le> lvl1 (hd q1)" by blast
    moreover from bq1 u have "lvl1 u \<le> Suc (lvl1 c)" by blast
    ultimately show "lvl1 u \<le> Suc (lvl1 (hd q1))" by simp
  qed
  have d2: "\<forall>v \<in> insert c D. \<forall>u \<in> set q1. lvl1 v \<le> lvl1 u"
  proof (intro ballI)
    fix v u assume v: "v \<in> insert c D" and u: "u \<in> set q1"
    from bq1 u have cu: "lvl1 c \<le> lvl1 u" by blast
    show "lvl1 v \<le> lvl1 u"
    proof (cases "v = c")
      case True
      with cu show ?thesis by simp
    next
      case False
      with v bd1 have "lvl1 v \<le> lvl1 c" by blast
      with cu show ?thesis by simp
    qed
  qed
  have o: "outer_inv sts start lvl1 (insert c D) q1 v1 p1"
    unfolding outer_inv_def using t1 cl2 V2 so1 b2 d2 by blast
  from "2.hyps"[OF get r o "2.prems"(2)] obtain visited' prev' lvl' D' where
    "bfs_loop sts (q1, v1, p1) = Inr (visited', prev')"
    "outer_inv sts start lvl' D' [] visited' prev'"
    by blast
  moreover have "bfs_loop sts (c # q, visited, prev) = bfs_loop sts (q1, v1, p1)"
    using get r by simp
  ultimately show ?case by auto
qed

lemma succs_connected:
  fixes self :: FiniteStateMachine
  assumes "backrefs_ok (states self) (transitions self)"
  shows "b \<in> succs (states self) a \<longleftrightarrow> connected self a b"
proof (cases "0 \<le> a \<and> a < int (length (states self))")
  case True
  then have "nat a < length (states self)" by auto
  with assms have "outgoing (states self ! nat a)
      = filter (\<lambda>t. from_state t = int (nat a)) (transitions self)"
    by (simp add: backrefs_ok_def)
  with True show ?thesis by (auto simp: succs_def connected_def)
next
  case False
  with assms have "\<not> connected self a b"
    unfolding backrefs_ok_def connected_def by auto
  with False show ?thesis by (auto simp add: succs_def)
qed

lemma backrefs_ok_wf_out:
  fixes self :: FiniteStateMachine
  assumes "backrefs_ok (states self) (transitions self)"
  shows "wf_out (states self)"
  unfolding wf_out_def
proof (intro allI ballI)
  fix v w assume "w \<in> succs (states self) v"
  then have "connected self v w" using succs_connected[OF assms] by simp
  with assms show "0 \<le> w \<and> w < int (length (states self))"
    unfolding backrefs_ok_def connected_def by auto
qed

lemma is_walk_snoc:
  "xs \<noteq> [] \<Longrightarrow> is_walk self (xs @ [x]) \<longleftrightarrow> is_walk self xs \<and> connected self (last xs) x"
proof (induction xs rule: is_walk.induct[of _ self])
  case (1 self)
  then show ?case by simp
next
  case (2 self a)
  then show ?case by simp
next
  case (3 self a b p)
  then show ?case by auto
qed

lemma initial_outer_inv:
  assumes "0 \<le> start" and "start < int (length sts)"
  shows "outer_inv sts start (\<lambda>v. 0) {} [start]
           ((replicate (length sts) False)[nat start := True]) (replicate (length sts) None)"
proof -
  have V: "vset ((replicate (length sts) False)[nat start := True]) = {start}"
    using assms by (auto simp: vset_def nth_list_update)
  have "tree_inv sts start (\<lambda>v. 0) ((replicate (length sts) False)[nat start := True])
          (replicate (length sts) None)"
    unfolding tree_inv_def V using assms by auto
  moreover have "closed_inv sts (\<lambda>v. 0) {} ((replicate (length sts) False)[nat start := True])"
    by (simp add: closed_inv_def)
  ultimately show ?thesis
    unfolding outer_inv_def V by simp
qed

lemma backtrack_unvisited:
  assumes "tree_inv sts start lvl visited prev"
    and "0 \<le> v" "v < int (length sts)" "v \<notin> vset visited"
  shows "bfs_backtrack prev (Some v) acc = Some (Inr (acc @ [v]))"
proof -
  from assms have "prev ! nat v = None" "length prev = length sts"
    by (simp_all add: tree_inv_def)
  with assms(2,3) have "py_get prev v = Inr None" by (simp add: py_get_valid)
  then have "bfs_backtrack prev (Some v) acc = bfs_backtrack prev None (acc @ [v])"
    by (subst bfs_backtrack.simps) simp
  also have "\<dots> = Some (Inr (acc @ [v]))"
    by (subst bfs_backtrack.simps) simp
  finally show ?thesis .
qed

lemma backtrack_visited:
  fixes self :: FiniteStateMachine
  assumes ok: "backrefs_ok (states self) (transitions self)"
    and t: "tree_inv (states self) start lvl visited prev"
  shows "v \<in> vset visited \<Longrightarrow> lvl v = k \<Longrightarrow>
           \<exists>chain. bfs_backtrack prev (Some v) acc = Some (Inr (acc @ chain))
                 \<and> length chain = Suc k \<and> path_between self start v (rev chain)"
proof (induction k arbitrary: v acc)
  case 0
  from t have len: "length prev = length (states self)" "length visited = length (states self)"
    and st: "prev ! nat start = None"
    and par: "\<forall>v \<in> vset visited. v \<noteq> start \<longrightarrow>
         (\<exists>u \<in> vset visited. prev ! nat v = Some u \<and> v \<in> succs (states self) u
             \<and> lvl v = Suc (lvl u))"
    by (simp_all add: tree_inv_def)
  from par 0 have vs: "v = start" by force
  from 0(1) len have "0 \<le> v" "v < int (length prev)" by (simp_all add: vset_def)
  with st vs have "py_get prev v = Inr None" by (simp add: py_get_valid)
  then have "bfs_backtrack prev (Some v) acc = bfs_backtrack prev None (acc @ [v])"
    by (subst bfs_backtrack.simps) simp
  also have "\<dots> = Some (Inr (acc @ [v]))"
    by (subst bfs_backtrack.simps) simp
  finally have "bfs_backtrack prev (Some v) acc = Some (Inr (acc @ [v]))" .
  moreover have "path_between self start v (rev [v])"
    using vs by (simp add: path_between_def)
  ultimately show ?case by (intro exI[of _ "[v]"]) simp
next
  case (Suc k)
  from t have len: "length prev = length (states self)" "length visited = length (states self)"
    and st: "lvl start = 0"
    and par: "\<forall>v \<in> vset visited. v \<noteq> start \<longrightarrow>
         (\<exists>u \<in> vset visited. prev ! nat v = Some u \<and> v \<in> succs (states self) u
             \<and> lvl v = Suc (lvl u))"
    by (simp_all add: tree_inv_def)
  from Suc.prems st have "v \<noteq> start" by auto
  with par Suc.prems obtain u where u: "u \<in> vset visited" "prev ! nat v = Some u"
    "v \<in> succs (states self) u" "lvl u = k"
    by force
  from Suc.IH[OF u(1) u(4), of "acc @ [v]"] obtain chain where
    c: "bfs_backtrack prev (Some u) (acc @ [v]) = Some (Inr ((acc @ [v]) @ chain))"
       "length chain = Suc k" "path_between self start u (rev chain)"
    by blast
  from Suc.prems(1) len have "0 \<le> v" "v < int (length prev)" by (simp_all add: vset_def)
  with u(2) have "py_get prev v = Inr (Some u)" by (simp add: py_get_valid)
  then have "bfs_backtrack prev (Some v) acc = bfs_backtrack prev (Some u) (acc @ [v])"
    by (subst bfs_backtrack.simps) simp
  with c(1) have run: "bfs_backtrack prev (Some v) acc = Some (Inr (acc @ (v # chain)))"
    by simp
  from c(2) have ne: "rev chain \<noteq> []" by auto
  from c(3) have w: "is_walk self (rev chain)" "hd (rev chain) = start" "last (rev chain) = u"
    by (simp_all add: path_between_def)
  from u(3) have "connected self u v" using succs_connected[OF ok] by simp
  with w ne have "is_walk self (rev chain @ [v])" by (simp add: is_walk_snoc)
  moreover have "hd (rev chain @ [v]) = start" using ne w(2) by simp
  ultimately have "path_between self start v (rev (v # chain))"
    by (simp add: path_between_def)
  with run c(2) show ?case by (intro exI[of _ "v # chain"]) simp
qed

lemma walk_bound:
  fixes self :: FiniteStateMachine
  assumes ok: "backrefs_ok (states self) (transitions self)"
    and t: "tree_inv (states self) start lvl visited prev"
    and cl: "closed_inv (states self) lvl (vset visited) visited"
  shows "is_walk self p \<Longrightarrow> hd p = start \<Longrightarrow> last p \<in> vset visited \<and> lvl (last p) < length p"
proof (induction p rule: rev_induct)
  case Nil
  then show ?case by simp
next
  case (snoc x xs)
  from t have st: "start \<in> vset visited" "lvl start = 0" by (simp_all add: tree_inv_def)
  show ?case
  proof (cases "xs = []")
    case True
    with snoc.prems st show ?thesis by simp
  next
    case False
    with snoc.prems have w: "is_walk self xs" "connected self (last xs) x" "hd xs = start"
      by (simp_all add: is_walk_snoc)
    from snoc.IH[OF w(1) w(3)] have l: "last xs \<in> vset visited" "lvl (last xs) < length xs"
      by simp_all
    from w(2) have "x \<in> succs (states self) (last xs)" using succs_connected[OF ok] by simp
    with cl l(1) have "x \<in> vset visited" "lvl x \<le> Suc (lvl (last xs))"
      by (auto simp: closed_inv_def)
    with l(2) show ?thesis by simp
  qed
qed

lemma py_get_first: "xs \<noteq> [] \<Longrightarrow> py_get xs 0 = Inr (hd xs)"
  by (cases xs) (simp_all add: py_get_def py_norm_def)

lemma bfs_result:
  fixes self :: FiniteStateMachine
  assumes ok: "backrefs_ok (states self) (transitions self)"
    and s: "0 \<le> start" "start < int (length (states self))"
    and e: "0 \<le> end_state" "end_state < int (length (states self))"
  shows "\<exists>path. bfs self end_state start = Some (Inr path)
           \<and> (path = [] \<longleftrightarrow> \<not> reachable self start end_state)
           \<and> (path \<noteq> [] \<longrightarrow> path_between self start end_state path
                 \<and> (\<forall>p. path_between self start end_state p \<longrightarrow> length path \<le> length p))"
proof -
  let ?sts = "states self"
  let ?v0 = "(replicate (length ?sts) False)[nat start := True]"
  let ?p0 = "replicate (length ?sts) (None :: int option)"
  have set0: "py_set (replicate (length ?sts) False) start True = Inr ?v0"
    using s by (simp add: py_set_valid)
  from bfs_loop_inv[OF initial_outer_inv[OF s] backrefs_ok_wf_out[OF ok]]
  obtain visited prev lvl D where
    loop: "bfs_loop ?sts ([start], ?v0, ?p0) = Inr (visited, prev)"
    and o: "outer_inv ?sts start lvl D [] visited prev"
    by blast
  from o have t: "tree_inv ?sts start lvl visited prev"
    and cl: "closed_inv ?sts lvl (vset visited) visited"
    by (simp_all add: outer_inv_def)
  from t have sv: "start \<in> vset visited" by (simp add: tree_inv_def)
  have bound: "end_state \<in> vset visited \<and> lvl end_state < length p"
    if "path_between self start end_state p" for p
    using walk_bound[OF ok t cl, of p] that by (simp add: path_between_def)
  show ?thesis
  proof (cases "end_state \<in> vset visited")
    case True
    from backtrack_visited[OF ok t True refl, of "[]"] obtain chain where
      c: "bfs_backtrack prev (Some end_state) [] = Some (Inr chain)"
         "length chain = Suc (lvl end_state)" "path_between self start end_state (rev chain)"
      by auto
    from c(2) have ne: "rev chain \<noteq> []" by auto
    from c(3) have "hd (rev chain) = start" by (simp add: path_between_def)
    with ne have first: "py_get (rev chain) 0 = Inr start" by (simp add: py_get_first)
    have run: "bfs self end_state start = Some (Inr (rev chain))"
      by (simp add: bfs_def set0 loop c(1) first del: bfs_loop.simps)
    have reach: "reachable self start end_state"
      using c(3) unfolding reachable_def by blast
    have short: "\<forall>p. path_between self start end_state p \<longrightarrow> length (rev chain) \<le> length p"
      using bound c(2) by (simp add: Suc_le_eq)
    from run ne reach c(3) short show ?thesis by blast
  next
    case False
    have c: "bfs_backtrack prev (Some end_state) [] = Some (Inr [end_state])"
      using backtrack_unvisited[OF t e False, of "[]"] by simp
    have first: "py_get [end_state] 0 = Inr end_state" by (simp add: py_get_first)
    from False sv have "end_state \<noteq> start" by auto
    then have run: "bfs self end_state start = Some (Inr [])"
      by (simp add: bfs_def set0 loop c first del: bfs_loop.simps)
    have "\<not> reachable self start end_state"
      using bound False unfolding reachable_def by blast
    with run show ?thesis by simp
  qed
qed

text \<open>
  C6, amended.  In a machine that satisfies the invariants (a) and (c) of the data model,
  for valid non-negative ids \<open>start\<close> and \<open>end\<close>, \<open>bfs(end, start)\<close> returns; the path
  returned is empty exactly when \<open>end\<close> is not reachable from \<open>start\<close> over stored
  transitions; a non-empty path starts at \<open>start\<close>, ends at \<open>end\<close>, has every consecutive
  pair connected by a stored transition, and no walk from \<open>start\<close> to \<open>end\<close> is shorter; and
  \<open>bfs(start, start)\<close> is \<open>[start]\<close>.
\<close>

theorem bfs_shortest_path:
  fixes self :: FiniteStateMachine
  assumes "backrefs_ok (states self) (transitions self)"
    and "0 \<le> start" and "start < int (length (states self))"
    and "0 \<le> end_state" and "end_state < int (length (states self))"
  shows "(\<exists>path. bfs self end_state start = Some (Inr path)
           \<and> (path = [] \<longleftrightarrow> \<not> reachable self start end_state)
           \<and> (path \<noteq> [] \<longrightarrow> path_between self start end_state path
                 \<and> (\<forall>p. path_between self start end_state p \<longrightarrow> length path \<le> length p)))
       \<and> bfs self start start = Some (Inr [start])"
proof
  show "\<exists>path. bfs self end_state start = Some (Inr path)
           \<and> (path = [] \<longleftrightarrow> \<not> reachable self start end_state)
           \<and> (path \<noteq> [] \<longrightarrow> path_between self start end_state path
                 \<and> (\<forall>p. path_between self start end_state p \<longrightarrow> length path \<le> length p))"
    using assms by (rule bfs_result)
next
  from bfs_result[OF assms(1) assms(2,3) assms(2,3)] obtain path where
    p: "bfs self start start = Some (Inr path)"
       "path = [] \<longleftrightarrow> \<not> reachable self start start"
       "path \<noteq> [] \<longrightarrow> path_between self start start path
            \<and> (\<forall>p. path_between self start start p \<longrightarrow> length path \<le> length p)"
    by blast
  have one: "path_between self start start [start]" by (simp add: path_between_def)
  then have "reachable self start start" unfolding reachable_def by blast
  with p(2) have ne: "path \<noteq> []" by simp
  from p(3) ne have pb: "path_between self start start path"
    and sh: "\<forall>p. path_between self start start p \<longrightarrow> length path \<le> length p"
    by blast+
  from sh one have "length path \<le> length [start]" by blast
  moreover from pb have "hd path = start" by (simp add: path_between_def)
  ultimately have "path = [start]" using ne by (cases path) auto
  with p(1) show "bfs self start start = Some (Inr [start])" by simp
qed

text \<open>The fixture satisfies the hypotheses: the path from 0 to 2, no path from 2 to 0.\<close>

theorem bfs_shortest_path_witness:
  "bfs fixture 2 0 = Some (Inr [0, 1, 2]) \<and> path_between fixture 0 2 [0, 1, 2]
   \<and> bfs fixture 0 2 = Some (Inr []) \<and> \<not> reachable fixture 2 0
   \<and> bfs fixture 0 0 = Some (Inr [0])"
proof -
  have wf: "backrefs_ok (states fixture) (transitions fixture)"
    by (simp add: backrefs_ok_def fixture_def t01_def t12_def less_Suc_eq)
  have e1: "bfs fixture 2 0 = Some (Inr [0, 1, 2])" by code_simp
  have e2: "bfs fixture 0 2 = Some (Inr [])" by code_simp
  from bfs_shortest_path[OF wf, of 0 2] e1
  have a: "path_between fixture 0 2 [0, 1, 2]" "bfs fixture 0 0 = Some (Inr [0])"
    by (auto simp: fixture_def)
  from bfs_shortest_path[OF wf, of 2 0] e2
  have b: "\<not> reachable fixture 2 0"
    by (auto simp: fixture_def)
  from e1 e2 a b show ?thesis by simp
qed

text \<open>
  Without the bound on \<open>end\<close> the statement fails on the fixture: for \<open>end = 5\<close>, which no
  transition reaches, the call raises \<open>IndexError\<close> instead of returning the empty path;
  for \<open>end = -1\<close> it returns a path whose last pair is not connected.
\<close>

theorem bfs_invalid_end_counterexample:
  "bfs fixture 5 0 = Some (Inl IndexError)
   \<and> bfs fixture (- 1) 0 = Some (Inr [0, 1, - 1]) \<and> \<not> connected fixture 1 (- 1)"
proof -
  have "bfs fixture 5 0 = Some (Inl IndexError)" by code_simp
  moreover have "bfs fixture (- 1) 0 = Some (Inr [0, 1, - 1])" by code_simp
  moreover have "\<not> connected fixture 1 (- 1)"
    by (simp add: connected_def fixture_def t01_def t12_def)
  ultimately show ?thesis by simp
qed

section \<open>Simulating an action: the states returned\<close>

lemma eps_reach_outside: "eps_reach self X x y \<Longrightarrow> x \<notin> X \<and> y \<notin> X"
  by (induction rule: eps_reach.induct) auto

lemma eps_reach_mono: "eps_reach self X' x y \<Longrightarrow> X \<subseteq> X' \<Longrightarrow> eps_reach self X x y"
proof (induction rule: eps_reach.induct)
  case eps_refl
  then show ?case by (auto intro: eps_reach.eps_refl)
next
  case (eps_step y z)
  then show ?case by (auto intro: eps_reach.eps_step)
qed

lemma eps_reach_trans:
  "eps_reach self X y z \<Longrightarrow> eps_reach self X x y \<Longrightarrow> eps_reach self X x z"
proof (induction rule: eps_reach.induct)
  case eps_refl
  then show ?case by simp
next
  case (eps_step y z)
  then show ?case by (auto intro: eps_reach.eps_step)
qed

text \<open>Unfolding the closure of an unblocked state at its first step.\<close>

lemma eps_reach_first:
  assumes "x \<notin> X"
  shows "eps_reach self X x w \<longleftrightarrow>
           w = x \<or> (\<exists>t. labelled self None x t \<and> eps_reach self (insert x X) t w)"
proof
  assume "eps_reach self X x w"
  then show "w = x \<or> (\<exists>t. labelled self None x t \<and> eps_reach self (insert x X) t w)"
  proof (induction rule: eps_reach.induct)
    case eps_refl
    then show ?case by simp
  next
    case (eps_step y z)
    show ?case
    proof (cases "z = x")
      case True
      then show ?thesis by simp
    next
      case False
      with eps_step.hyps(3) have zo: "z \<notin> insert x X" by simp
      from eps_step.IH show ?thesis
      proof
        assume "y = x"
        with eps_step.hyps(2) have "labelled self None x z" by simp
        moreover from zo have "eps_reach self (insert x X) z z" by (rule eps_reach.eps_refl)
        ultimately show ?thesis by blast
      next
        assume "\<exists>t. labelled self None x t \<and> eps_reach self (insert x X) t y"
        then obtain t where t: "labelled self None x t" "eps_reach self (insert x X) t y" by blast
        from t(2) eps_step.hyps(2) zo have "eps_reach self (insert x X) t z" by (rule eps_reach.eps_step)
        with t(1) show ?thesis by blast
      qed
    qed
  qed
next
  assume r: "w = x \<or> (\<exists>t. labelled self None x t \<and> eps_reach self (insert x X) t w)"
  from assms have xx: "eps_reach self X x x" by (rule eps_reach.eps_refl)
  from r show "eps_reach self X x w"
  proof
    assume "w = x"
    with xx show ?thesis by simp
  next
    assume "\<exists>t. labelled self None x t \<and> eps_reach self (insert x X) t w"
    then obtain t where t: "labelled self None x t" "eps_reach self (insert x X) t w" by blast
    from t(2) have tw: "eps_reach self X t w" by (rule eps_reach_mono) auto
    then have "t \<notin> X" by (simp add: eps_reach_outside)
    with xx t(1) have "eps_reach self X x t" by (rule eps_reach.eps_step)
    with tw show ?thesis by (rule eps_reach_trans)
  qed
qed

text \<open>Blocking what an earlier sibling has found loses nothing.\<close>

lemma eps_reach_after_sibling:
  assumes X2: "X2 = X \<union> {w. eps_reach self X x w}"
  shows "eps_reach self X y w \<longleftrightarrow> (eps_reach self X x w \<and> eps_reach self X y w) \<or> eps_reach self X2 y w"
proof
  assume "eps_reach self X y w"
  then have "eps_reach self X x w \<or> eps_reach self X2 y w"
  proof (induction rule: eps_reach.induct)
    case eps_refl
    show ?case
    proof (cases "eps_reach self X x y")
      case True
      then show ?thesis by simp
    next
      case False
      with eps_refl have "y \<notin> X2" by (simp add: X2)
      then show ?thesis by (auto intro: eps_reach.eps_refl)
    qed
  next
    case (eps_step u z)
    show ?case
    proof (cases "eps_reach self X x z")
      case True
      then show ?thesis by simp
    next
      case False
      with eps_step.hyps(3) have zo: "z \<notin> X2" by (simp add: X2)
      from eps_step.IH show ?thesis
      proof
        assume "eps_reach self X x u"
        from this eps_step.hyps(2,3) have "eps_reach self X x z" by (rule eps_reach.eps_step)
        with False show ?thesis by simp
      next
        assume "eps_reach self X2 y u"
        from this eps_step.hyps(2) zo have "eps_reach self X2 y z" by (rule eps_reach.eps_step)
        then show ?thesis by simp
      qed
    qed
  qed
  with \<open>eps_reach self X y w\<close>
  show "(eps_reach self X x w \<and> eps_reach self X y w) \<or> eps_reach self X2 y w" by blast
next
  assume "(eps_reach self X x w \<and> eps_reach self X y w) \<or> eps_reach self X2 y w"
  then show "eps_reach self X y w"
  proof
    assume "eps_reach self X x w \<and> eps_reach self X y w"
    then show ?thesis by simp
  next
    assume "eps_reach self X2 y w"
    then show ?thesis by (rule eps_reach_mono) (simp add: X2)
  qed
qed

lemma discovery_order_Nil: "discovery_order self S []"
  by (simp add: discovery_order_def)

lemma discovery_order_mono:
  "discovery_order self S found \<Longrightarrow> S \<subseteq> S' \<Longrightarrow> discovery_order self S' found"
  unfolding discovery_order_def by blast

lemma discovery_order_append:
  assumes "discovery_order self S xs" and "discovery_order self S ys"
  shows "discovery_order self S (xs @ ys)"
  unfolding discovery_order_def
proof (intro allI impI)
  fix i assume i: "i < length (xs @ ys)"
  show "(xs @ ys) ! i \<in> S \<or> (\<exists>j < i. labelled self None ((xs @ ys) ! j) ((xs @ ys) ! i))"
  proof (cases "i < length xs")
    case True
    with assms(1) have "xs ! i \<in> S \<or> (\<exists>j < i. labelled self None (xs ! j) (xs ! i))"
      by (simp add: discovery_order_def)
    then show ?thesis
    proof
      assume "xs ! i \<in> S"
      with True show ?thesis by (simp add: nth_append)
    next
      assume "\<exists>j < i. labelled self None (xs ! j) (xs ! i)"
      then obtain j where "j < i" "labelled self None (xs ! j) (xs ! i)" by blast
      with True have "j < i \<and> labelled self None ((xs @ ys) ! j) ((xs @ ys) ! i)"
        by (simp add: nth_append)
      then show ?thesis by blast
    qed
  next
    case False
    define k where "k = i - length xs"
    with False i have k: "k < length ys" "i = length xs + k" by simp_all
    with assms(2) have "ys ! k \<in> S \<or> (\<exists>j < k. labelled self None (ys ! j) (ys ! k))"
      by (simp add: discovery_order_def)
    then show ?thesis
    proof
      assume "ys ! k \<in> S"
      with k show ?thesis by simp
    next
      assume "\<exists>j < k. labelled self None (ys ! j) (ys ! k)"
      then obtain j where "j < k" "labelled self None (ys ! j) (ys ! k)" by blast
      with k have "length xs + j < i
          \<and> labelled self None ((xs @ ys) ! (length xs + j)) ((xs @ ys) ! i)"
        by simp
      then show ?thesis by blast
    qed
  qed
qed

lemma discovery_order_block:
  assumes "t \<in> S" and "discovery_order self {w. labelled self None t w} found"
  shows "discovery_order self S (t # found)"
  unfolding discovery_order_def
proof (intro allI impI)
  fix i assume i: "i < length (t # found)"
  show "(t # found) ! i \<in> S \<or> (\<exists>j < i. labelled self None ((t # found) ! j) ((t # found) ! i))"
  proof (cases i)
    case 0
    with assms(1) show ?thesis by simp
  next
    case (Suc k)
    with i have k: "k < length found" by simp
    with assms(2) have "labelled self None t (found ! k)
        \<or> (\<exists>j < k. labelled self None (found ! j) (found ! k))"
      by (simp add: discovery_order_def)
    then show ?thesis
    proof
      assume "labelled self None t (found ! k)"
      with Suc have "0 < i \<and> labelled self None ((t # found) ! 0) ((t # found) ! i)" by simp
      then show ?thesis by blast
    next
      assume "\<exists>j < k. labelled self None (found ! j) (found ! k)"
      then obtain j where "j < k" "labelled self None (found ! j) (found ! k)" by blast
      with Suc have "Suc j < i \<and> labelled self None ((t # found) ! Suc j) ((t # found) ! i)"
        by simp
      then show ?thesis by blast
    qed
  qed
qed

lemma backrefs_outgoing:
  assumes "backrefs_ok sts trs" and "0 \<le> u" and "u < int (length sts)"
  shows "set (outgoing (sts ! nat u)) = {t \<in> set trs. from_state t = u}"
proof -
  from assms(2,3) have "nat u < length sts" by auto
  with assms(1) have "outgoing (sts ! nat u) = filter (\<lambda>t. from_state t = int (nat u)) trs"
    by (simp add: backrefs_ok_def)
  with assms(2) show ?thesis by auto
qed

lemma backrefs_to_valid:
  "backrefs_ok sts trs \<Longrightarrow> t \<in> set trs \<Longrightarrow> 0 \<le> to_state t \<and> to_state t < int (length sts)"
  by (simp add: backrefs_ok_def)

lemma perform_action_correct:
  fixes self :: FiniteStateMachine
  shows "backrefs_ok (states self) (transitions self) \<Longrightarrow> 0 \<le> state
      \<Longrightarrow> state < int (length (states self)) \<Longrightarrow> length visited = length (states self)
      \<Longrightarrow> \<exists>found v'. perform_action self act state visited = Inr (found, v')
            \<and> dfs_post self (insert state (vset visited)) {w. labelled self act state w}
                 {w. \<exists>t. labelled self act state t
                        \<and> eps_reach self (insert state (vset visited)) t w}
                 v' found"
    and "backrefs_ok (states self) (transitions self) \<Longrightarrow> set ts \<subseteq> set (transitions self)
      \<Longrightarrow> length visited = length (states self)
      \<Longrightarrow> \<exists>new v'. perform_action_loop self act ts possible_states visited
                       = Inr (possible_states @ new, v')
            \<and> dfs_post self (vset visited) {to_state t | t. t \<in> set ts \<and> action t = act}
                 {w. \<exists>t \<in> set ts. action t = act \<and> eps_reach self (vset visited) (to_state t) w}
                 v' new"
proof (induction self act state visited and self act ts possible_states visited
        rule: perform_action_perform_action_loop.induct)
  case (1 self act state visited)
  note ok = "1.prems"(1) and st = "1.prems"(2,3) and len = "1.prems"(4)
  let ?v1 = "visited[nat state := True]"
  let ?s = "states self ! nat state"
  have set1: "py_set visited state True = Inr ?v1" using st len by (simp add: py_set_valid)
  have get1: "py_get (states self) state = Inr ?s" using st by (simp add: py_get_valid)
  have V1: "vset ?v1 = insert state (vset visited)" using st len by (simp add: vset_mark)
  have out: "set (outgoing ?s) = {t \<in> set (transitions self). from_state t = state}"
    using ok st by (rule backrefs_outgoing)
  then have sub: "set (outgoing ?s) \<subseteq> set (transitions self)" by auto
  have len1: "length ?v1 = length (states self)" using len by simp
  from "1.IH"[OF set1 get1 ok sub len1] obtain new v' where
    run: "perform_action_loop self act (outgoing ?s) [] ?v1 = Inr ([] @ new, v')"
    and post: "dfs_post self (vset ?v1) {to_state t | t. t \<in> set (outgoing ?s) \<and> action t = act}
                 {w. \<exists>t \<in> set (outgoing ?s). action t = act
                        \<and> eps_reach self (vset ?v1) (to_state t) w} v' new"
    by blast
  have S: "{to_state t | t. t \<in> set (outgoing ?s) \<and> action t = act} = {w. labelled self act state w}"
    unfolding out labelled_def by auto
  have R: "{w. \<exists>t \<in> set (outgoing ?s). action t = act
                 \<and> eps_reach self (insert state (vset visited)) (to_state t) w}
         = {w. \<exists>t. labelled self act state t \<and> eps_reach self (insert state (vset visited)) t w}"
    unfolding out labelled_def by auto
  have "perform_action self act state visited = Inr (new, v')"
    using set1 get1 run by simp
  moreover have "dfs_post self (insert state (vset visited)) {w. labelled self act state w}
                 {w. \<exists>t. labelled self act state t
                        \<and> eps_reach self (insert state (vset visited)) t w} v' new"
    using post unfolding V1 S R .
  ultimately show ?case by blast
next
  case (2 self act possible_states visited)
  then show ?case by (simp add: dfs_post_def discovery_order_Nil)
next
  case (3 self act transition rest possible_states visited)
  note ok = "3.prems"(1) and len = "3.prems"(3)
  from "3.prems"(2) have tin: "transition \<in> set (transitions self)"
    and sub: "set rest \<subseteq> set (transitions self)" by simp_all
  let ?to = "to_state transition"
  let ?X = "vset visited"
  from backrefs_to_valid[OF ok tin] have to: "0 \<le> ?to" "?to < int (length (states self))"
    by simp_all
  have get: "py_get visited ?to = Inr (visited ! nat ?to)"
    using to len by (simp add: py_get_valid)
  show ?case
  proof (cases "action transition = act")
    case False
    from "3.IH"(4)[OF False ok sub len] obtain new v' where
      run: "perform_action_loop self act rest possible_states visited = Inr (possible_states @ new, v')"
      and post: "dfs_post self ?X {to_state t | t. t \<in> set rest \<and> action t = act}
                 {w. \<exists>t \<in> set rest. action t = act \<and> eps_reach self ?X (to_state t) w} v' new"
      by blast
    have S: "{to_state t | t. t \<in> set (transition # rest) \<and> action t = act}
           = {to_state t | t. t \<in> set rest \<and> action t = act}"
      using False by auto
    have R: "{w. \<exists>t \<in> set (transition # rest). action t = act \<and> eps_reach self ?X (to_state t) w}
           = {w. \<exists>t \<in> set rest. action t = act \<and> eps_reach self ?X (to_state t) w}"
      using False by auto
    have "perform_action_loop self act (transition # rest) possible_states visited
            = Inr (possible_states @ new, v')"
      using run False by simp
    with post show ?thesis unfolding S R by blast
  next
    case True
    show ?thesis
    proof (cases "visited ! nat ?to")
      case seen: True
      then have toX: "?to \<in> ?X" using to len by (simp add: vset_def)
      from seen have nn: "\<not> \<not> visited ! nat ?to" by simp
      from "3.IH"(3)[OF True get nn ok sub len] obtain new v' where
        run: "perform_action_loop self act rest possible_states visited
                = Inr (possible_states @ new, v')"
        and post: "dfs_post self ?X {to_state t | t. t \<in> set rest \<and> action t = act}
                 {w. \<exists>t \<in> set rest. action t = act \<and> eps_reach self ?X (to_state t) w} v' new"
        by blast
      have none: "\<not> eps_reach self ?X ?to w" for w
        using toX eps_reach_outside[of self ?X ?to w] by blast
      have R: "{w. \<exists>t \<in> set (transition # rest). action t = act \<and> eps_reach self ?X (to_state t) w}
           = {w. \<exists>t \<in> set rest. action t = act \<and> eps_reach self ?X (to_state t) w}"
        using none by auto
      have S: "{to_state t | t. t \<in> set rest \<and> action t = act}
           \<subseteq> {to_state t | t. t \<in> set (transition # rest) \<and> action t = act}"
        by auto
      from post have post': "dfs_post self ?X
                 {to_state t | t. t \<in> set (transition # rest) \<and> action t = act}
                 {w. \<exists>t \<in> set (transition # rest). action t = act
                        \<and> eps_reach self ?X (to_state t) w} v' new"
        unfolding R dfs_post_def using discovery_order_mono[OF _ S] by blast
      have "perform_action_loop self act (transition # rest) possible_states visited
            = Inr (possible_states @ new, v')"
        using run True get seen by simp
      with post' show ?thesis by blast
    next
      case unseen: False
      then have toX: "?to \<notin> ?X" by (simp add: vset_def)
      let ?X1 = "insert ?to ?X"
      from "3.IH"(1)[OF True get unseen ok to len] obtain found1 v1 where
        run1: "perform_action self None ?to visited = Inr (found1, v1)"
        and post1: "dfs_post self ?X1 {w. labelled self None ?to w}
                 {w. \<exists>t. labelled self None ?to t \<and> eps_reach self ?X1 t w} v1 found1"
        by blast
      from post1 have len1: "length v1 = length (states self)"
        and V1: "vset v1 = ?X1 \<union> set found1"
        and d1: "distinct found1"
        and R1: "set found1 = {w. \<exists>t. labelled self None ?to t \<and> eps_reach self ?X1 t w}"
        and o1: "discovery_order self {w. labelled self None ?to w} found1"
        by (simp_all add: dfs_post_def)
      let ?block = "?to # found1"
      have blockR: "set ?block = {w. eps_reach self ?X ?to w}"
        using eps_reach_first[OF toX, of self] R1 by auto
      have X2: "vset v1 = ?X \<union> {w. eps_reach self ?X ?to w}"
        using V1 blockR by auto
      have notin: "?to \<notin> set found1"
        using R1 eps_reach_outside[of self ?X1] by auto
      from "3.IH"(2)[OF True get unseen run1 refl ok sub len1] obtain new2 v2 where
        run2: "perform_action_loop self act rest (possible_states @ [?to] @ found1) v1
                 = Inr ((possible_states @ [?to] @ found1) @ new2, v2)"
        and post2: "dfs_post self (vset v1) {to_state t | t. t \<in> set rest \<and> action t = act}
                 {w. \<exists>t \<in> set rest. action t = act \<and> eps_reach self (vset v1) (to_state t) w}
                 v2 new2"
        by blast
      from post2 have len2: "length v2 = length (states self)"
        and V2: "vset v2 = vset v1 \<union> set new2"
        and d2: "distinct new2"
        and R2: "set new2 = {w. \<exists>t \<in> set rest. action t = act
                                 \<and> eps_reach self (vset v1) (to_state t) w}"
        and o2: "discovery_order self {to_state t | t. t \<in> set rest \<and> action t = act} new2"
        by (simp_all add: dfs_post_def)
      have disj: "set new2 \<inter> vset v1 = {}"
        using R2 eps_reach_outside[of self "vset v1"] by auto
      have run: "perform_action_loop self act (transition # rest) possible_states visited
            = Inr (possible_states @ (?block @ new2), v2)"
        using run1 run2 True get unseen by simp
      have a: "vset v2 = ?X \<union> set (?block @ new2)"
        using V2 V1 by auto
      have b: "distinct (?block @ new2)"
        using d1 d2 notin disj V1 by auto
      have c: "set (?block @ new2)
           = {w. \<exists>t \<in> set (transition # rest). action t = act \<and> eps_reach self ?X (to_state t) w}"
        (is "?L = ?R")
      proof (intro set_eqI iffI)
        fix w assume "w \<in> ?L"
        then consider "eps_reach self ?X ?to w" | "w \<in> set new2"
          using blockR by auto
        then show "w \<in> ?R"
        proof cases
          case 1
          with True show ?thesis by auto
        next
          case 2
          with R2 obtain t where t: "t \<in> set rest" "action t = act"
            "eps_reach self (vset v1) (to_state t) w" by auto
          from t(3) have "eps_reach self ?X (to_state t) w"
            by (rule eps_reach_mono) (simp add: X2)
          with t(1,2) show ?thesis by auto
        qed
      next
        fix w assume "w \<in> ?R"
        then obtain t where t: "t \<in> set (transition # rest)" "action t = act"
          "eps_reach self ?X (to_state t) w" by auto
        show "w \<in> ?L"
        proof (cases "eps_reach self ?X ?to w")
          case True
          then show ?thesis using blockR by auto
        next
          case False
          with t have tr: "t \<in> set rest" by auto
          from t(3) eps_reach_after_sibling[OF X2, of "to_state t" w] False
          have "eps_reach self (vset v1) (to_state t) w" by simp
          with tr t(2) R2 show ?thesis by auto
        qed
      qed
      have d: "discovery_order self {to_state t | t. t \<in> set (transition # rest) \<and> action t = act}
                 (?block @ new2)"
      proof (rule discovery_order_append)
        show "discovery_order self {to_state t | t. t \<in> set (transition # rest) \<and> action t = act}
                ?block"
          using o1 True by (intro discovery_order_block) auto
        show "discovery_order self {to_state t | t. t \<in> set (transition # rest) \<and> action t = act}
                new2"
          using o2 by (rule discovery_order_mono) auto
      qed
      have "dfs_post self ?X {to_state t | t. t \<in> set (transition # rest) \<and> action t = act}
                 {w. \<exists>t \<in> set (transition # rest). action t = act
                        \<and> eps_reach self ?X (to_state t) w} v2 (?block @ new2)"
        unfolding dfs_post_def using len2 a b c d by blast
      with run show ?thesis by blast
    qed
  qed
qed

lemma vset_replicate_False: "vset (replicate n False) = {}"
  by (auto simp: vset_def)

text \<open>
  What the exploration computes.  In a machine that satisfies the invariants of the data
  model, \<open>simulate_action(a)\<close> returns a sequence without duplicates that does not
  contain \<open>current_state\<close> and whose elements are the states reached from \<open>current_state\<close>
  by one transition labelled \<open>a\<close> followed by zero or more epsilon transitions along a
  path that does not come back to \<open>current_state\<close>: the mark that the root gets before the
  pass over its \<open>a\<close>-transitions also stops every later epsilon pass at the root.  Each
  element is a direct \<open>a\<close>-target of \<open>current_state\<close> or the target of an epsilon
  transition from an earlier element, and the sequence is empty when no stored
  transition out of \<open>current_state\<close> carries \<open>a\<close>.
\<close>

lemma simulate_action_avoiding_root:
  fixes self :: FiniteStateMachine
  assumes "backrefs_ok (states self) (transitions self)"
    and "0 \<le> current_state self" and "current_state self < int (length (states self))"
  shows "\<exists>found. fst (simulate_action self act) = Inr found
           \<and> set found = {w. \<exists>t. labelled self act (current_state self) t
                                \<and> eps_reach self {current_state self} t w}
           \<and> distinct found
           \<and> current_state self \<notin> set found
           \<and> discovery_order self {w. labelled self act (current_state self) w} found
           \<and> ((\<forall>t \<in> set (transitions self). \<not> (from_state t = current_state self \<and> action t = act))
                 \<longrightarrow> found = [])"
proof -
  let ?c = "current_state self"
  let ?v0 = "replicate (length (states self)) False"
  have "length ?v0 = length (states self)" by simp
  from perform_action_correct(1)[OF assms this, of act] obtain found v' where
    run: "perform_action self act ?c ?v0 = Inr (found, v')"
    and post: "dfs_post self (insert ?c (vset ?v0)) {w. labelled self act ?c w}
                 {w. \<exists>t. labelled self act ?c t \<and> eps_reach self (insert ?c (vset ?v0)) t w}
                 v' found"
    by blast
  from post have R: "set found = {w. \<exists>t. labelled self act ?c t \<and> eps_reach self {?c} t w}"
    and d: "distinct found"
    and o: "discovery_order self {w. labelled self act ?c w} found"
    by (simp_all add: dfs_post_def vset_replicate_False)
  have out: "?c \<notin> set found"
    using R eps_reach_outside[of self "{?c}"] by auto
  have none: "found = []"
    if "\<forall>t \<in> set (transitions self). \<not> (from_state t = ?c \<and> action t = act)"
  proof -
    from that have "\<not> labelled self act ?c t" for t by (auto simp: labelled_def)
    with R have "set found = {}" by simp
    then show ?thesis by simp
  qed
  have "fst (simulate_action self act) = Inr found"
    using run by (simp add: simulate_action_def)
  with R d out o none show ?thesis by blast
qed

text \<open>On the fixture: from state 1 the action leads to state 2, from state 0 nowhere.\<close>

lemma simulate_action_on_fixture:
  "fst (simulate_action (fixture\<lparr>current_state := 1\<rparr>) (Some ''press_a'')) = Inr [2]
   \<and> fst (simulate_action fixture (Some ''press_a'')) = Inr []"
proof -
  have wf: "backrefs_ok (states fixture) (transitions fixture)"
    by (simp add: backrefs_ok_def fixture_def t01_def t12_def less_Suc_eq)
  have e1: "fst (simulate_action (fixture\<lparr>current_state := 1\<rparr>) (Some ''press_a'')) = Inr [2]"
    by code_simp
  have "\<forall>t \<in> set (transitions fixture).
          \<not> (from_state t = current_state fixture \<and> action t = Some ''press_a'')"
    by (simp add: fixture_def t01_def t12_def)
  with simulate_action_avoiding_root[of fixture "Some ''press_a''"] wf
  have "fst (simulate_action fixture (Some ''press_a'')) = Inr []"
    by (auto simp: fixture_def)
  with e1 show ?thesis by simp
qed

text \<open>
  C5.  The claim is that \<open>simulate_action(a)\<close> returns the targets of the transitions
  labelled \<open>a\<close> out of \<open>current_state\<close> and every state of the epsilon closure of such a
  target, the root excepted.  On \<open>detour\<close>, which \<open>from_csv\<close> builds from
  \<open>r -a-> x\<close>, \<open>x -eps-> r\<close>, \<open>r -eps-> y\<close>, state 2 (\<open>y\<close>) is in the epsilon closure of
  the \<open>a\<close>-target 1 (\<open>x\<close>) and is not the root, so the claim puts it in the result; the
  call returns \<open>[1]\<close>.
\<close>

theorem simulate_action_detour:
  "fst (simulate_action detour (Some ''a'')) = Inr [1]
   \<and> labelled detour (Some ''a'') (current_state detour) 1
   \<and> eps_reach detour {} 1 2
   \<and> 2 \<noteq> current_state detour
   \<and> from_csv [[''r''], [''x''], [''y'']] [[''a'', ''r'', ''x''], ['''', ''x'', ''r''], ['''', ''r'', ''y'']]
       = Inr detour"
proof -
  have run: "fst (simulate_action detour (Some ''a'')) = Inr [1]" by code_simp
  have l1: "labelled detour (Some ''a'') (current_state detour) 1"
    by (simp add: labelled_def detour_def Let_def)
  have l2: "labelled detour None 1 0" by (simp add: labelled_def detour_def Let_def)
  have l3: "labelled detour None 0 2" by (simp add: labelled_def detour_def Let_def)
  have "eps_reach detour {} 1 1" by (rule eps_reach.eps_refl) simp
  from this l2 have "eps_reach detour {} 1 0" by (rule eps_reach.eps_step) simp
  from this l3 have r: "eps_reach detour {} 1 2" by (rule eps_reach.eps_step) simp
  have c: "2 \<noteq> current_state detour" by (simp add: detour_def Let_def)
  have ld: "from_csv [[''r''], [''x''], [''y'']]
              [[''a'', ''r'', ''x''], ['''', ''x'', ''r''], ['''', ''r'', ''y'']] = Inr detour"
    by code_simp
  from run l1 r c ld show ?thesis by simp
qed

end
